theory Spec2Isabelle
  imports Main "HOL-Library.Word"
begin

unbundle bit_operations_syntax

section \<open>Data model (git\_vid\_codec.h)\<close>

type_synonym u8 = "8 word"
type_synonym u32 = "32 word"

text \<open>
  The status codes of the header file. \<open>GVC_SUCCESS\<close> is the \<open>Inr\<close> side of a result;
  \<open>GVC_ERROR_FORMAT\<close> is what the spec calls MalformedFrame, and
  \<open>GVC_ERROR_COMPRESSION\<close> what it calls DecompressError. \<open>OUT_OF_BOUNDS\<close> is not a
  status code of the program: it marks a run in which the C code reads or writes outside
  an allocation, where the program has no defined behaviour.
\<close>

datatype gvc_error =
    GVC_ERROR_MEMORY
  | GVC_ERROR_IO
  | GVC_ERROR_GIT
  | GVC_ERROR_COMPRESSION
  | GVC_ERROR_FORMAT
  | GVC_ERROR_DISPLAY
  | GVC_ERROR_THREAD
  | OUT_OF_BOUNDS

definition FRAME_WIDTH :: u32 where "FRAME_WIDTH = 1920"
definition FRAME_HEIGHT :: u32 where "FRAME_HEIGHT = 1080"
definition FRAME_CHANNELS :: u32 where "FRAME_CHANNELS = 3"
definition FRAME_MAGIC :: u32 where "FRAME_MAGIC = 0x47564346"

record frame_header_t =
  frame_number :: u32
  width :: u32
  height :: u32
  channels :: u32
  compressed_size :: u32
  checksum :: u32
  compression_type :: u8
  reserved :: "u8 \<times> u8 \<times> u8"

text \<open>
  \<open>frame_t\<close>: the C struct holds a pointer \<open>data\<close> and its length \<open>data_size\<close>; the model
  holds the bytes as a list, and \<open>data_size\<close> is the length of that list.
\<close>

record frame_t =
  header :: frame_header_t
  data :: "u8 list"

definition data_size :: "frame_t \<Rightarrow> nat" where
  "data_size frame = length (data frame)"

record raw_frame_t =
  pixels :: "u8 list"
  raw_width :: u32
  raw_height :: u32
  raw_channels :: u32

section \<open>Checksum (compression.c: calculate\_checksum)\<close>

text \<open>
  Modelled from the spec: \<open>crc32\<close> is the zlib library function, which is not part of the
  repository. The spec names it CRC-32/ISO-HDLC (polynomial 0x04C11DB7, reflected, that is
  0xEDB88320), called with initial value 0; zlib complements the register before and after
  the bytes are processed.
\<close>

definition crc_step :: "u32 \<Rightarrow> u32" where
  "crc_step c = (if bit c 0 then drop_bit 1 c XOR 0xEDB88320 else drop_bit 1 c)"

definition crc_byte :: "u32 \<Rightarrow> u8 \<Rightarrow> u32" where
  "crc_byte c b = (crc_step ^^ 8) (c XOR ucast b)"

definition crc32 :: "u32 \<Rightarrow> u8 list \<Rightarrow> u32" where
  "crc32 crc buf = foldl crc_byte (crc XOR 0xFFFFFFFF) buf XOR 0xFFFFFFFF"

definition calculate_checksum :: "u8 list \<Rightarrow> u32" where
  "calculate_checksum bytes = crc32 0 bytes"

section \<open>Frame container (frame\_format.c)\<close>

text \<open>
  \<open>memcpy\<close> of a \<open>uint32_t\<close> on the little-endian targets of the program: least
  significant byte first. The header struct has six 32-bit fields and four bytes, 28 bytes
  without padding.
\<close>

definition le32_bytes :: "u32 \<Rightarrow> u8 list" where
  "le32_bytes w = [ucast w, ucast (drop_bit 8 w), ucast (drop_bit 16 w), ucast (drop_bit 24 w)]"

definition le32_of :: "u8 \<Rightarrow> u8 \<Rightarrow> u8 \<Rightarrow> u8 \<Rightarrow> u32" where
  "le32_of b0 b1 b2 b3 =
     ucast b0 OR push_bit 8 (ucast b1) OR push_bit 16 (ucast b2) OR push_bit 24 (ucast b3)"

definition le32_read :: "u8 list \<Rightarrow> nat \<Rightarrow> u32" where
  "le32_read buffer offset =
     le32_of (buffer ! offset) (buffer ! (offset + 1)) (buffer ! (offset + 2)) (buffer ! (offset + 3))"

definition header_bytes :: "frame_header_t \<Rightarrow> u8 list" where
  "header_bytes h =
     le32_bytes (frame_number h) @ le32_bytes (width h) @ le32_bytes (height h)
       @ le32_bytes (channels h) @ le32_bytes (compressed_size h) @ le32_bytes (checksum h)
       @ [compression_type h]
       @ (case reserved h of (r0, r1, r2) \<Rightarrow> [r0, r1, r2])"

definition read_header :: "u8 list \<Rightarrow> nat \<Rightarrow> frame_header_t" where
  "read_header buffer offset =
     \<lparr> frame_number = le32_read buffer offset,
       width = le32_read buffer (offset + 4),
       height = le32_read buffer (offset + 8),
       channels = le32_read buffer (offset + 12),
       compressed_size = le32_read buffer (offset + 16),
       checksum = le32_read buffer (offset + 20),
       compression_type = buffer ! (offset + 24),
       reserved = (buffer ! (offset + 25), buffer ! (offset + 26), buffer ! (offset + 27)) \<rparr>"

text \<open>
  \<open>serialize_frame\<close>: magic, header, payload. The null-pointer and allocation-failure
  returns of the C function have no counterpart here (the arguments are values and
  allocation is taken to succeed), so the function always yields the buffer.
\<close>

definition serialize_frame :: "frame_t \<Rightarrow> u8 list" where
  "serialize_frame frame =
     le32_bytes FRAME_MAGIC @ header_bytes (header frame)
       @ (if data_size frame > 0 then data frame else [])"

text \<open>
  \<open>deserialize_frame\<close>: \<open>size\<close> is the length of the buffer. Every read of the header
  happens after the length check, so it is inside the buffer. \<open>offset + compressed_size\<close>
  is a \<open>size_t\<close> sum (64 bits), which does not wrap.
\<close>

definition deserialize_frame :: "u8 list \<Rightarrow> gvc_error + frame_t" where
  "deserialize_frame buffer =
     (let size = length buffer in
      if size < 4 + 28 then Inl GVC_ERROR_FORMAT
      else
        let magic = le32_read buffer 0 in
        if magic \<noteq> FRAME_MAGIC then Inl GVC_ERROR_FORMAT
        else
          let hdr = read_header buffer 4; offset = 32 in
          if width hdr \<noteq> FRAME_WIDTH \<or> height hdr \<noteq> FRAME_HEIGHT
               \<or> channels hdr \<noteq> FRAME_CHANNELS
          then Inl GVC_ERROR_FORMAT
          else if offset + unat (compressed_size hdr) > size then Inl GVC_ERROR_FORMAT
          else
            let dsize = unat (compressed_size hdr) in
            if dsize > 0 then
              let d = take dsize (drop offset buffer) in
              if calculate_checksum d \<noteq> checksum hdr then Inl GVC_ERROR_FORMAT
              else Inr \<lparr> header = hdr, data = d \<rparr>
            else Inr \<lparr> header = hdr, data = [] \<rparr>)"

section \<open>Entropy coder\<close>

text \<open>
  The entropy coder and \<open>compressBound\<close> belong to libraries outside the repository
  (Apple's libcompression with \<open>COMPRESSION_LZFSE\<close>, and zlib). They are parameters of
  the model: \<open>lzfse_encode\<close> and \<open>lzfse_decode\<close> map a whole input to a whole output,
  the empty output standing for the return value 0.
\<close>

record compression_lib =
  compressBound :: "nat \<Rightarrow> nat"
  lzfse_encode :: "u8 list \<Rightarrow> u8 list"
  lzfse_decode :: "u8 list \<Rightarrow> u8 list"

text \<open>
  \<open>compression_encode_buffer\<close> returns 0 when the output does not fit the destination;
  \<open>compression_decode_buffer\<close> writes the first \<open>dst_size\<close> bytes when the output is
  longer than the destination, and returns their number. The result list is the content
  of the destination buffer, its length the return value.
\<close>

definition compression_encode_buffer :: "compression_lib \<Rightarrow> nat \<Rightarrow> u8 list \<Rightarrow> u8 list" where
  "compression_encode_buffer L dst_size src =
     (let out = lzfse_encode L src in if length out \<le> dst_size then out else [])"

definition compression_decode_buffer :: "compression_lib \<Rightarrow> nat \<Rightarrow> u8 list \<Rightarrow> u8 list" where
  "compression_decode_buffer L dst_size src = take dst_size (lzfse_decode L src)"

section \<open>Compression engine (compression.c)\<close>

text \<open>
  \<open>compress_frame_delta\<close>, lines 26 to 30 and lines 40 to 44: the two inner \<open>while\<close>
  loops, with the run counter as the last argument. Pixel buffers are lists; the reads
  \<open>cur ! k\<close> happen at \<open>k < pixel_count\<close> only, and \<open>compress_frame_delta\<close> below
  checks that both buffers hold \<open>pixel_count\<close> bytes.
\<close>

function identical_run_loop :: "u8 list \<Rightarrow> u8 list \<Rightarrow> nat \<Rightarrow> nat \<Rightarrow> nat \<Rightarrow> nat" where
  "identical_run_loop cur prev pixel_count i identical_run =
     (if i + identical_run < pixel_count
         \<and> cur ! (i + identical_run) = prev ! (i + identical_run)
         \<and> identical_run < 255
      then identical_run_loop cur prev pixel_count i (identical_run + 1)
      else identical_run)"
  by pat_completeness auto
termination
  by (relation "measure (\<lambda>(cur, prev, pixel_count, i, identical_run). 255 - identical_run)") auto

declare identical_run_loop.simps [simp del]

function diff_run_loop :: "u8 list \<Rightarrow> u8 list \<Rightarrow> nat \<Rightarrow> nat \<Rightarrow> nat \<Rightarrow> nat" where
  "diff_run_loop cur prev pixel_count i diff_run =
     (if i + diff_run < pixel_count
         \<and> cur ! (i + diff_run) \<noteq> prev ! (i + diff_run)
         \<and> diff_run < 255
      then diff_run_loop cur prev pixel_count i (diff_run + 1)
      else diff_run)"
  by pat_completeness auto
termination
  by (relation "measure (\<lambda>(cur, prev, pixel_count, i, diff_run). 255 - diff_run)") auto

declare diff_run_loop.simps [simp del]

text \<open>
  Line 52 and 53: the difference of the two bytes as a signed 16-bit value (it lies in
  [-255, 255], so \<open>int\<close> is exact), masked with 0xFF and stored as a byte.
\<close>

definition delta_byte :: "u8 \<Rightarrow> u8 \<Rightarrow> u8" where
  "delta_byte c p = word_of_int ((uint c - uint p) AND 0xFF)"

definition emit_deltas :: "u8 list \<Rightarrow> u8 list \<Rightarrow> nat \<Rightarrow> nat \<Rightarrow> u8 list" where
  "emit_deltas cur prev i diff_run =
     map (\<lambda>j. delta_byte (cur ! (i + j)) (prev ! (i + j))) [0..<diff_run]"

text \<open>
  Lines 23 to 60: the outer loop. \<open>delta_buffer\<close> is the list of bytes stored so far;
  \<open>delta_buffer[delta_pos++] = b\<close> appends \<open>b\<close>, and \<open>delta_pos\<close> is the length of the
  list, so the k-th byte of the result is the byte stored at index k.
\<close>

function delta_loop :: "u8 list \<Rightarrow> u8 list \<Rightarrow> nat \<Rightarrow> nat \<Rightarrow> u8 list \<Rightarrow> u8 list" where
  "delta_loop cur prev pixel_count i delta_buffer =
     (if i < pixel_count then
        (let identical_run = identical_run_loop cur prev pixel_count i 0 in
         if identical_run > 0 then
           delta_loop cur prev pixel_count (i + identical_run)
             (delta_buffer @ [0x00, of_nat identical_run])
         else
           (let diff_run = diff_run_loop cur prev pixel_count i 0 in
            if diff_run > 0 then
              delta_loop cur prev pixel_count (i + diff_run)
                (delta_buffer @ [0x01, of_nat diff_run] @ emit_deltas cur prev i diff_run)
            else delta_loop cur prev pixel_count (i + 1) delta_buffer))
      else delta_buffer)"
  by pat_completeness auto
termination
  by (relation "measure (\<lambda>(cur, prev, pixel_count, i, delta_buffer). pixel_count - i)") auto

declare delta_loop.simps [simp del]

text \<open>
  \<open>compress_frame_delta\<close>. Products of the \<open>uint32_t\<close> dimensions wrap at 32 bits;
  \<open>pixel_count * 2\<close> is computed in \<open>size_t\<close> (64 bits on the targets of the program, so
  it does not wrap). The result is \<open>OUT_OF_BOUNDS\<close> when a pixel
  buffer is shorter than \<open>pixel_count\<close> (the loops read every index below it) and when
  more than \<open>pixel_count * 2\<close> bytes are stored into \<open>delta_buffer\<close>, which is allocated
  with that size. \<open>output\<close> is the caller's struct before the call: the function sets
  every header field but \<open>reserved\<close>. Null arguments and failing allocations are not
  modelled.
\<close>

definition compress_frame_delta ::
  "compression_lib \<Rightarrow> raw_frame_t \<Rightarrow> raw_frame_t \<Rightarrow> frame_t \<Rightarrow> gvc_error + frame_t" where
  "compress_frame_delta L current previous output =
     (if raw_width current \<noteq> raw_width previous
         \<or> raw_height current \<noteq> raw_height previous
         \<or> raw_channels current \<noteq> raw_channels previous
      then Inl GVC_ERROR_FORMAT
      else
        let pixel_count = unat (raw_width current * raw_height current * raw_channels current) in
        if length (pixels current) < pixel_count \<or> length (pixels previous) < pixel_count
        then Inl OUT_OF_BOUNDS
        else
          let delta_buffer = delta_loop (pixels current) (pixels previous) pixel_count 0 [];
              delta_pos = length delta_buffer in
          if pixel_count * 2 < delta_pos then Inl OUT_OF_BOUNDS
          else
            let compressed_size = compressBound L delta_pos;
                compressed_data = compression_encode_buffer L compressed_size delta_buffer;
                result = length compressed_data in
            if result = 0 then Inl GVC_ERROR_COMPRESSION
            else Inr (output
                   \<lparr> header := (header output)
                       \<lparr> frame_number := 0,
                         width := raw_width current,
                         height := raw_height current,
                         channels := raw_channels current,
                         compressed_size := of_nat result,
                         checksum := calculate_checksum compressed_data,
                         compression_type := 1 \<rparr>,
                     data := compressed_data \<rparr>))"

text \<open>The macro \<open>CLAMP(x, min, max)\<close>, that is \<open>MIN(MAX(x, min), max)\<close>.\<close>

definition CLAMP :: "int \<Rightarrow> int \<Rightarrow> int \<Rightarrow> int" where
  "CLAMP x lo hi = min (max x lo) hi"

text \<open>
  The state of the replay loop of \<open>decompress_frame_delta\<close> (lines 136 to 157):
  the two cursors and the output pixel buffer. \<open>writes\<close> logs the index of every store
  into the output buffer, in order.
\<close>

record replay_state =
  delta_pos :: nat
  pixel_pos :: nat
  out_pixels :: "u8 list"
  writes :: "nat list"

text \<open>
  Lines 151 to 154, the body of the \<open>for\<close> loop: the delta byte read as \<open>int8_t\<close>, added
  to the pixel and clamped. The values lie in [-128, 382], so \<open>int\<close> is exact for the
  \<open>int16_t\<close> of the source.
\<close>

definition apply_delta :: "u8 list \<Rightarrow> replay_state \<Rightarrow> replay_state" where
  "apply_delta delta_buffer s =
     (let delta = sint (delta_buffer ! delta_pos s);
          new_value = uint (out_pixels s ! pixel_pos s) + delta
      in \<lparr> delta_pos = delta_pos s + 1,
           pixel_pos = pixel_pos s + 1,
           out_pixels = (out_pixels s)[pixel_pos s := word_of_int (CLAMP new_value 0 255)],
           writes = writes s @ [pixel_pos s] \<rparr>)"

function apply_deltas ::
  "u8 list \<Rightarrow> nat \<Rightarrow> nat \<Rightarrow> nat \<Rightarrow> nat \<Rightarrow> replay_state \<Rightarrow> replay_state" where
  "apply_deltas delta_buffer delta_size pixel_count run_length i s =
     (if i < run_length \<and> pixel_pos s < pixel_count \<and> delta_pos s < delta_size
      then apply_deltas delta_buffer delta_size pixel_count run_length (i + 1)
             (apply_delta delta_buffer s)
      else s)"
  by pat_completeness auto
termination
  by (relation "measure (\<lambda>(delta_buffer, delta_size, pixel_count, run_length, i, s). run_length - i)") auto

declare apply_deltas.simps [simp del]

lemma apply_deltas_step:
  "i < run_length \<and> pixel_pos s < pixel_count \<and> delta_pos s < delta_size \<Longrightarrow>
   apply_deltas delta_buffer delta_size pixel_count run_length i s =
     apply_deltas delta_buffer delta_size pixel_count run_length (i + 1) (apply_delta delta_buffer s)"
  by (subst apply_deltas.simps) (rule if_P)

lemma apply_deltas_stop:
  "\<not> (i < run_length \<and> pixel_pos s < pixel_count \<and> delta_pos s < delta_size) \<Longrightarrow>
   apply_deltas delta_buffer delta_size pixel_count run_length i s = s"
  by (subst apply_deltas.simps) (rule if_not_P)

lemma apply_deltas_delta_pos_mono:
  "delta_pos s \<le> delta_pos (apply_deltas delta_buffer delta_size pixel_count run_length i s)"
proof (induction delta_buffer delta_size pixel_count run_length i s rule: apply_deltas.induct)
  case (1 delta_buffer delta_size pixel_count run_length i s)
  show ?case
  proof (cases "i < run_length \<and> pixel_pos s < pixel_count \<and> delta_pos s < delta_size")
    case True
    have "delta_pos s \<le> delta_pos (apply_delta delta_buffer s)"
      by (simp add: apply_delta_def Let_def)
    also have "\<dots> \<le> delta_pos (apply_deltas delta_buffer delta_size pixel_count run_length
        (i + 1) (apply_delta delta_buffer s))"
      using "1.IH" [OF True] .
    finally show ?thesis
      by (simp only: apply_deltas_step [OF True])
  next
    case False
    then show ?thesis by (simp only: apply_deltas_stop [OF False] order_refl)
  qed
qed

text \<open>
  Lines 139 to 157, the \<open>while\<close> loop. A command byte other than 0x00 and 0x01 is
  skipped together with its run length; a command byte that is the last byte of the
  buffer ends the loop.
\<close>

function replay_loop :: "u8 list \<Rightarrow> nat \<Rightarrow> nat \<Rightarrow> replay_state \<Rightarrow> replay_state" where
  "replay_loop delta_buffer delta_size pixel_count s =
     (if delta_pos s < delta_size \<and> pixel_pos s < pixel_count then
        (let command = delta_buffer ! delta_pos s;
             s1 = s \<lparr> delta_pos := delta_pos s + 1 \<rparr>
         in if delta_pos s1 \<ge> delta_size then s1
            else
              (let run_length = delta_buffer ! delta_pos s1;
                   s2 = s1 \<lparr> delta_pos := delta_pos s1 + 1 \<rparr>
               in if command = 0x00 then
                    replay_loop delta_buffer delta_size pixel_count
                      (s2 \<lparr> pixel_pos := pixel_pos s2 + unat run_length \<rparr>)
                  else if command = 0x01 then
                    replay_loop delta_buffer delta_size pixel_count
                      (apply_deltas delta_buffer delta_size pixel_count (unat run_length) 0 s2)
                  else replay_loop delta_buffer delta_size pixel_count s2))
      else s)"
  by pat_completeness auto
termination
proof (relation "measure (\<lambda>(delta_buffer, delta_size, pixel_count, s). delta_size - delta_pos s)")
  show "wf (measure (\<lambda>(delta_buffer, delta_size, pixel_count, s). delta_size - delta_pos s))"
    by simp
next
  fix delta_buffer :: "u8 list" and delta_size pixel_count :: nat and s s1 s2 :: replay_state
    and command run_length :: u8
  assume "delta_pos s < delta_size \<and> pixel_pos s < pixel_count"
    and "s1 = s\<lparr>delta_pos := delta_pos s + 1\<rparr>"
    and "\<not> delta_size \<le> delta_pos s1"
    and "s2 = s1\<lparr>delta_pos := delta_pos s1 + 1\<rparr>"
  moreover have "delta_pos s2 \<le> delta_pos (apply_deltas delta_buffer delta_size pixel_count (unat run_length) 0 s2)"
    by (rule apply_deltas_delta_pos_mono)
  ultimately show "((delta_buffer, delta_size, pixel_count,
           apply_deltas delta_buffer delta_size pixel_count (unat run_length) 0 s2),
          delta_buffer, delta_size, pixel_count, s)
         \<in> measure (\<lambda>(delta_buffer, delta_size, pixel_count, s). delta_size - delta_pos s)"
    by simp
qed auto

declare replay_loop.simps [simp del]

text \<open>
  \<open>decompress_frame_delta\<close>: the delta buffer has \<open>width * height * channels * 2\<close>
  bytes, a product of \<open>uint32_t\<close> values. \<open>memcpy\<close> reads \<open>pixel_count\<close> bytes of the
  predecessor: the result is \<open>OUT_OF_BOUNDS\<close> when it holds fewer. There is no comparison
  of the predecessor's dimensions with the header's.
\<close>

definition decompress_frame_delta ::
  "compression_lib \<Rightarrow> frame_t \<Rightarrow> raw_frame_t \<Rightarrow> gvc_error + raw_frame_t" where
  "decompress_frame_delta L compressed previous =
     (let delta_size = unat (width (header compressed) * height (header compressed)
                               * channels (header compressed) * 2);
          delta_buffer = compression_decode_buffer L delta_size (data compressed);
          decompressed_size = length delta_buffer in
      if decompressed_size = 0 then Inl GVC_ERROR_COMPRESSION
      else
        let delta_size = decompressed_size;
            pixel_count = unat (width (header compressed) * height (header compressed)
                                  * channels (header compressed)) in
        if length (pixels previous) < pixel_count then Inl OUT_OF_BOUNDS
        else
          let s = replay_loop delta_buffer delta_size pixel_count
                    \<lparr> delta_pos = 0, pixel_pos = 0,
                      out_pixels = take pixel_count (pixels previous), writes = [] \<rparr>
          in Inr \<lparr> pixels = out_pixels s,
                   raw_width = width (header compressed),
                   raw_height = height (header compressed),
                   raw_channels = channels (header compressed) \<rparr>)"

text \<open>\<open>compress_frame_raw\<close> and \<open>decompress_frame_raw\<close>.\<close>

definition compress_frame_raw ::
  "compression_lib \<Rightarrow> raw_frame_t \<Rightarrow> frame_t \<Rightarrow> gvc_error + frame_t" where
  "compress_frame_raw L input output =
     (let pixel_count = unat (raw_width input * raw_height input * raw_channels input) in
      if length (pixels input) < pixel_count then Inl OUT_OF_BOUNDS
      else
        let compressed_size = compressBound L pixel_count;
            compressed_data =
              compression_encode_buffer L compressed_size (take pixel_count (pixels input));
            result = length compressed_data in
        if result = 0 then Inl GVC_ERROR_COMPRESSION
        else Inr (output
               \<lparr> header := (header output)
                   \<lparr> frame_number := 0,
                     width := raw_width input,
                     height := raw_height input,
                     channels := raw_channels input,
                     compressed_size := of_nat result,
                     checksum := calculate_checksum compressed_data,
                     compression_type := 0 \<rparr>,
                 data := compressed_data \<rparr>))"

definition decompress_frame_raw :: "compression_lib \<Rightarrow> frame_t \<Rightarrow> gvc_error + raw_frame_t" where
  "decompress_frame_raw L compressed =
     (let pixel_count = unat (width (header compressed) * height (header compressed)
                                * channels (header compressed));
          out = compression_decode_buffer L pixel_count (data compressed);
          decompressed_size = length out in
      if decompressed_size = 0 \<or> decompressed_size \<noteq> pixel_count
      then Inl GVC_ERROR_COMPRESSION
      else Inr \<lparr> pixels = out,
               raw_width = width (header compressed),
               raw_height = height (header compressed),
               raw_channels = channels (header compressed) \<rparr>)"

section \<open>Encoder and decoder pipelines\<close>

text \<open>
  \<open>encode_frame_to_commit\<close>, up to the record whose serialization becomes the blob; the
  object store is outside the model. \<open>compressed_frame\<close> is the function's local struct,
  which the source does not initialise.
\<close>

definition encode_frame_to_commit ::
  "compression_lib \<Rightarrow> raw_frame_t \<Rightarrow> raw_frame_t option \<Rightarrow> u32 \<Rightarrow> frame_t
     \<Rightarrow> gvc_error + frame_t" where
  "encode_frame_to_commit L current_frame previous_frame frame_num compressed_frame =
     (let result = (case previous_frame of
                      Some previous \<Rightarrow> compress_frame_delta L current_frame previous compressed_frame
                    | None \<Rightarrow> compress_frame_raw L current_frame compressed_frame)
      in case result of
           Inl e \<Rightarrow> Inl e
         | Inr cf \<Rightarrow> Inr (cf \<lparr> header := (header cf) \<lparr> frame_number := frame_num \<rparr> \<rparr>))"

text \<open>
  The loop of \<open>encode_video_sequence\<close>, with the frames to encode given as a list: the
  first error ends the loop, and each frame becomes the predecessor of the next. \<open>junk\<close>
  is the content of the uninitialised local struct of \<open>encode_frame_to_commit\<close>.
\<close>

fun encode_video_sequence ::
  "compression_lib \<Rightarrow> frame_t \<Rightarrow> raw_frame_t option \<Rightarrow> nat \<Rightarrow> raw_frame_t list
     \<Rightarrow> gvc_error + frame_t list" where
  "encode_video_sequence L junk previous_frame frame_num [] = Inr []"
| "encode_video_sequence L junk previous_frame frame_num (current_frame # rest) =
     (case encode_frame_to_commit L current_frame previous_frame (of_nat frame_num) junk of
        Inl e \<Rightarrow> Inl e
      | Inr record \<Rightarrow>
          (case encode_video_sequence L junk (Some current_frame) (frame_num + 1) rest of
             Inl e \<Rightarrow> Inl e
           | Inr records \<Rightarrow> Inr (record # records)))"

text \<open>
  player.c: \<open>decode_and_display_frame_buffered\<close> after deserialization, and the loop of
  \<open>decoder_thread\<close>, which keeps the last successfully decoded frame as predecessor and
  moves on after a failure.
\<close>

definition decode_frame ::
  "compression_lib \<Rightarrow> frame_t \<Rightarrow> raw_frame_t option \<Rightarrow> gvc_error + raw_frame_t" where
  "decode_frame L compressed_frame previous_frame =
     (if compression_type (header compressed_frame) = 0 then
        decompress_frame_raw L compressed_frame
      else if compression_type (header compressed_frame) = 1 then
        (case previous_frame of
           None \<Rightarrow> Inl GVC_ERROR_FORMAT
         | Some previous \<Rightarrow> decompress_frame_delta L compressed_frame previous)
      else Inl GVC_ERROR_FORMAT)"

fun decoder_thread ::
  "compression_lib \<Rightarrow> raw_frame_t option \<Rightarrow> frame_t list \<Rightarrow> (gvc_error + raw_frame_t) list" where
  "decoder_thread L previous_frame [] = []"
| "decoder_thread L previous_frame (record # rest) =
     (case decode_frame L record previous_frame of
        Inr current_frame \<Rightarrow>
          Inr current_frame # decoder_thread L (Some current_frame) rest
      | Inl e \<Rightarrow> Inl e # decoder_thread L previous_frame rest)"

section \<open>Vocabulary of the properties\<close>

text \<open>A valid record in the sense of the container's invariant.\<close>

definition valid_record :: "frame_t \<Rightarrow> bool" where
  "valid_record r \<longleftrightarrow>
     width (header r) = FRAME_WIDTH \<and> height (header r) = FRAME_HEIGHT
     \<and> channels (header r) = FRAME_CHANNELS
     \<and> checksum (header r) = calculate_checksum (data r)
     \<and> reserved (header r) = (0, 0, 0)
     \<and> length (data r) = unat (compressed_size (header r))"

text \<open>
  The 32 bytes that precede the payload in a serialized record: magic and header.
\<close>

definition frame_prefix :: "frame_header_t \<Rightarrow> u8 list" where
  "frame_prefix h = le32_bytes FRAME_MAGIC @ header_bytes h"

text \<open>
  The assumptions on the entropy coder: the round-trip law of the spec (decoding inverts
  encoding on every input), and that encoding a non-empty input succeeds and fits
  \<open>compressBound\<close> of its length, the destination size that the code passes.
\<close>

definition lib_ok :: "compression_lib \<Rightarrow> bool" where
  "lib_ok L \<longleftrightarrow>
     (\<forall>xs. lzfse_decode L (lzfse_encode L xs) = xs)
     \<and> (\<forall>xs. xs \<noteq> [] \<longrightarrow> lzfse_encode L xs \<noteq> []
                \<and> length (lzfse_encode L xs) \<le> compressBound L (length xs))"

text \<open>
  What the decoder computes from the delta byte that the encoder emits for a current byte
  \<open>c\<close> and a predecessor byte \<open>p\<close>.
\<close>

definition recon :: "u8 \<Rightarrow> u8 \<Rightarrow> u8" where
  "recon c p = word_of_int (CLAMP (uint p + sint (delta_byte c p)) 0 255)"

text \<open>
  The output buffer of the replay loop when the first \<open>m\<close> of its \<open>n\<close> bytes are
  reconstructed and the others still hold the predecessor's bytes.
\<close>

definition partial_out :: "u8 list \<Rightarrow> u8 list \<Rightarrow> nat \<Rightarrow> nat \<Rightarrow> u8 list" where
  "partial_out cur prev n m =
     map (\<lambda>k. if k < m then recon (cur ! k) (prev ! k) else prev ! k) [0..<n]"

text \<open>
  Every logged store is inside the output buffer, and the buffer has its allocated size.
\<close>

definition writes_ok :: "nat \<Rightarrow> replay_state \<Rightarrow> bool" where
  "writes_ok pixel_count s \<longleftrightarrow>
     list_all (\<lambda>k. k < pixel_count) (writes s) \<and> length (out_pixels s) = pixel_count"

text \<open>
  The invariant of a raw frame of dimensions \<open>w\<close>, \<open>h\<close>, \<open>c\<close>: the pixel buffer holds
  \<open>w * h * c\<close> bytes, the product as the code computes it.
\<close>

definition frame_ok :: "u32 \<Rightarrow> u32 \<Rightarrow> u32 \<Rightarrow> raw_frame_t \<Rightarrow> bool" where
  "frame_ok w h c f \<longleftrightarrow>
     raw_width f = w \<and> raw_height f = h \<and> raw_channels f = c
     \<and> length (pixels f) = unat (w * h * c)"

text \<open>
  Every byte-wise difference between the two frames lies in [-128, 127] (and the pixel
  buffers have the same length).
\<close>

definition delta_in_range :: "raw_frame_t \<Rightarrow> raw_frame_t \<Rightarrow> bool" where
  "delta_in_range cur prev \<longleftrightarrow>
     list_all2 (\<lambda>c p. - 128 \<le> uint c - uint p \<and> uint c - uint p \<le> 127)
       (pixels cur) (pixels prev)"

text \<open>
  The command stream that \<open>compress_frame_delta\<close> builds for two frames, before entropy
  coding, and whether it fits the \<open>width * height * channels * 2\<close> bytes of the decoder's
  delta buffer (which is never more than the encoder's \<open>pixel_count * 2\<close>).
\<close>

definition delta_stream :: "raw_frame_t \<Rightarrow> raw_frame_t \<Rightarrow> u8 list" where
  "delta_stream cur prev =
     delta_loop (pixels cur) (pixels prev)
       (unat (raw_width cur * raw_height cur * raw_channels cur)) 0 []"

definition delta_fits :: "raw_frame_t \<Rightarrow> raw_frame_t \<Rightarrow> bool" where
  "delta_fits cur prev \<longleftrightarrow>
     length (delta_stream cur prev)
       \<le> unat (raw_width cur * raw_height cur * raw_channels cur * 2)"

text \<open>
  The byte that delta decoding yields for a current byte \<open>c\<close> and a predecessor byte
  \<open>p\<close>, stated without reference to the code, and the frame made of these bytes.
\<close>

definition clamped_byte :: "u8 \<Rightarrow> u8 \<Rightarrow> u8" where
  "clamped_byte c p =
     (if 127 < uint c - uint p then 0 else if uint c - uint p < - 128 then 255 else c)"

definition clamped_frame :: "raw_frame_t \<Rightarrow> raw_frame_t \<Rightarrow> raw_frame_t" where
  "clamped_frame cur prev = cur \<lparr> pixels := map2 clamped_byte (pixels cur) (pixels prev) \<rparr>"

text \<open>
  The record that \<open>compress_frame_delta\<close> returns when it succeeds.
\<close>

definition delta_record :: "compression_lib \<Rightarrow> raw_frame_t \<Rightarrow> raw_frame_t \<Rightarrow> frame_t \<Rightarrow> frame_t" where
  "delta_record L cur prev output =
     output \<lparr> header := (header output)
                 \<lparr> frame_number := 0,
                   width := raw_width cur,
                   height := raw_height cur,
                   channels := raw_channels cur,
                   compressed_size := of_nat (length (lzfse_encode L (delta_stream cur prev))),
                   checksum := calculate_checksum (lzfse_encode L (delta_stream cur prev)),
                   compression_type := 1 \<rparr>,
              data := lzfse_encode L (delta_stream cur prev) \<rparr>"

text \<open>
  The record that \<open>compress_frame_raw\<close> returns when it succeeds, and a record with the
  frame number that \<open>encode_frame_to_commit\<close> sets.
\<close>

definition raw_record :: "compression_lib \<Rightarrow> raw_frame_t \<Rightarrow> frame_t \<Rightarrow> frame_t" where
  "raw_record L input output =
     output \<lparr> header := (header output)
                 \<lparr> frame_number := 0,
                   width := raw_width input,
                   height := raw_height input,
                   channels := raw_channels input,
                   compressed_size := of_nat (length (lzfse_encode L (pixels input))),
                   checksum := calculate_checksum (lzfse_encode L (pixels input)),
                   compression_type := 0 \<rparr>,
              data := lzfse_encode L (pixels input) \<rparr>"

definition commit_record :: "frame_t \<Rightarrow> u32 \<Rightarrow> frame_t" where
  "commit_record r frame_num = r \<lparr> header := (header r) \<lparr> frame_number := frame_num \<rparr> \<rparr>"

text \<open>
  A sequence of frames in which each frame is in range of, and fits against, the frame
  before it.
\<close>

fun chain_ok :: "raw_frame_t \<Rightarrow> raw_frame_t list \<Rightarrow> bool" where
  "chain_ok prev [] = True"
| "chain_ok prev (cur # rest) =
     (delta_in_range cur prev \<and> delta_fits cur prev \<and> chain_ok cur rest)"

definition sequence_ok :: "raw_frame_t list \<Rightarrow> bool" where
  "sequence_ok frames = (case frames of [] \<Rightarrow> True | first # rest \<Rightarrow> chain_ok first rest)"

section \<open>Sample data\<close>

text \<open>
  A valid record with a two-byte payload; its checksum is the CRC-32 of that payload.
\<close>

definition sample_record :: frame_t where
  "sample_record =
     \<lparr> header = \<lparr> frame_number = 7, width = 1920, height = 1080, channels = 3,
                   compressed_size = 2, checksum = calculate_checksum [0x41, 0x42],
                   compression_type = 0, reserved = (0, 0, 0) \<rparr>,
       data = [0x41, 0x42] \<rparr>"

text \<open>
  A concrete entropy coder for evaluation: one tag byte followed by the input, with
  zlib's \<open>compressBound\<close>.
\<close>

definition stored_lib :: compression_lib where
  "stored_lib =
     \<lparr> compressBound = (\<lambda>n. n + n div 4096 + n div 16384 + n div 33554432 + 13),
       lzfse_encode = (\<lambda>xs. 0x53 # xs),
       lzfse_decode = tl \<rparr>"

definition mk_frame :: "u32 \<Rightarrow> u32 \<Rightarrow> u32 \<Rightarrow> u8 list \<Rightarrow> raw_frame_t" where
  "mk_frame w h c ps = \<lparr> pixels = ps, raw_width = w, raw_height = h, raw_channels = c \<rparr>"

definition junk_frame :: frame_t where
  "junk_frame =
     \<lparr> header = \<lparr> frame_number = 0xDEADBEEF, width = 0, height = 0, channels = 0,
                   compressed_size = 0, checksum = 0, compression_type = 0xAA,
                   reserved = (0xAA, 0xBB, 0xCC) \<rparr>,
       data = [] \<rparr>"

text \<open>
  Frames of 1x1x3 bytes for evaluation.
\<close>

definition lo_frame :: raw_frame_t where "lo_frame = mk_frame 1 1 3 [0, 0, 0]"
definition hi_frame :: raw_frame_t where "hi_frame = mk_frame 1 1 3 [200, 200, 200]"

definition near_frame :: raw_frame_t where "near_frame = mk_frame 1 1 3 [10, 20, 30]"
definition next_frame :: raw_frame_t where "next_frame = mk_frame 1 1 3 [15, 25, 30]"

definition alt_frame :: raw_frame_t where "alt_frame = mk_frame 1 1 3 [1, 0, 1]"

text \<open>
  A frame of 2x1x3 bytes, and a DELTA record of 1x1x3 bytes whose payload is the command
  \<open>(0x00, 3)\<close> under \<open>stored_lib\<close>.
\<close>

definition wide_frame :: raw_frame_t where "wide_frame = mk_frame 2 1 3 [1, 2, 3, 4, 5, 6]"

definition skip_record :: frame_t where
  "skip_record =
     \<lparr> header = \<lparr> frame_number = 1, width = 1, height = 1, channels = 3,
                   compressed_size = 3, checksum = calculate_checksum [0x53, 0x00, 0x03],
                   compression_type = 1, reserved = (0, 0, 0) \<rparr>,
       data = [0x53, 0x00, 0x03] \<rparr>"

text \<open>
  The 8x8x3 frame of value 0x80.
\<close>

definition grey_frame :: raw_frame_t where
  "grey_frame = mk_frame 8 8 3 (replicate 192 0x80)"

text \<open>
  A pixel buffer with 1 at the even offsets and 0 at the odd ones; with it, a frame of the
  configured dimensions and its all-zero predecessor.
\<close>

definition alt_pixels :: "nat \<Rightarrow> u8 list" where
  "alt_pixels n = map (\<lambda>k. if even k then 1 else 0) [0..<n]"

definition hd_alt_frame :: raw_frame_t where
  "hd_alt_frame = mk_frame 1920 1080 3 (alt_pixels 6220800)"

definition hd_zero_frame :: raw_frame_t where
  "hd_zero_frame = mk_frame 1920 1080 3 (replicate 6220800 0)"

text \<open>
  Records that are valid but for a non-zero reserved byte, or a compression type of 2.
\<close>

definition reserved_set_record :: frame_t where
  "reserved_set_record =
     \<lparr> header = \<lparr> frame_number = 0, width = 1920, height = 1080, channels = 3,
                   compressed_size = 1, checksum = calculate_checksum [0x41],
                   compression_type = 0, reserved = (1, 0, 0) \<rparr>,
       data = [0x41] \<rparr>"

definition type_two_record :: frame_t where
  "type_two_record =
     \<lparr> header = \<lparr> frame_number = 0, width = 1920, height = 1080, channels = 3,
                   compressed_size = 1, checksum = calculate_checksum [0x41],
                   compression_type = 2, reserved = (0, 0, 0) \<rparr>,
       data = [0x41] \<rparr>"

text \<open>
  The all-white frame of the configured dimensions; followed by the all-black frame
  \<open>hd_zero_frame\<close> every byte goes from 255 to 0, as the red channel does at \<open>x = 255\<close>
  between frames 0 and 1 of \<open>generate_test_frame\<close>. The two records are what the encoder
  makes of these frames under \<open>stored_lib\<close>.
\<close>

definition hd_white_frame :: raw_frame_t where
  "hd_white_frame = mk_frame 1920 1080 3 (replicate 6220800 255)"

definition hd_record0 :: frame_t where
  "hd_record0 = commit_record (raw_record stored_lib hd_white_frame junk_frame) 0"

definition hd_record1 :: frame_t where
  "hd_record1 = commit_record (delta_record stored_lib hd_zero_frame hd_white_frame junk_frame) 1"

section \<open>Frame container: round trip and integrity\<close>

lemma le32_of_bytes:
  "le32_of (ucast w) (ucast (drop_bit 8 w)) (ucast (drop_bit 16 w)) (ucast (drop_bit 24 w)) = w"
  unfolding le32_of_def
proof (rule bit_word_eqI)
  fix n :: nat
  assume "n < LENGTH(32)"
  then have n: "n < 32" by simp
  consider "n < 8" | "8 \<le> n" "n < 16" | "16 \<le> n" "n < 24" | "24 \<le> n" "n < 32"
    using n by linarith
  then show "bit (ucast (ucast w :: u8) OR push_bit 8 (ucast (ucast (drop_bit 8 w) :: u8))
        OR push_bit 16 (ucast (ucast (drop_bit 16 w) :: u8))
        OR push_bit 24 (ucast (ucast (drop_bit 24 w) :: u8)) :: u32) n = bit w n"
    by cases (auto simp add: bit_simps)
qed

lemma length_frame_prefix: "length (frame_prefix h) = 32"
  by (simp add: frame_prefix_def header_bytes_def le32_bytes_def split: prod.split)

lemma serialize_frame_prefix: "serialize_frame r = frame_prefix (header r) @ data r"
  by (simp add: serialize_frame_def frame_prefix_def data_size_def)

lemma le32_read_prefix: "le32_read (frame_prefix h @ d) 0 = FRAME_MAGIC"
  by (simp add: frame_prefix_def le32_read_def le32_bytes_def le32_of_bytes)

lemma read_header_prefix: "read_header (frame_prefix h @ d) 4 = h"
  by (cases h, simp add: frame_prefix_def header_bytes_def read_header_def le32_read_def le32_bytes_def le32_of_bytes split: prod.split)

lemma deserialize_prefix:
  assumes "width h = FRAME_WIDTH" "height h = FRAME_HEIGHT" "channels h = FRAME_CHANNELS"
    and "length d = unat (compressed_size h)"
  shows "deserialize_frame (frame_prefix h @ d) =
     (if d \<noteq> [] \<and> calculate_checksum d \<noteq> checksum h then Inl GVC_ERROR_FORMAT
      else Inr \<lparr> header = h, data = d \<rparr>)"
  using assms
  by (auto simp add: deserialize_frame_def Let_def le32_read_prefix read_header_prefix length_frame_prefix)

text \<open>
  C5 (container round-trip): for every valid record \<open>r\<close> (dimensions equal to the
  configured target, checksum equal to the CRC-32 of the payload, reserved bytes zero,
  payload length equal to \<open>compressed_size\<close>), deserializing the serialized record
  succeeds and returns \<open>r\<close>.
\<close>

theorem container_roundtrip:
  "valid_record r \<Longrightarrow> deserialize_frame (serialize_frame r) = Inr r"
  by (simp add: valid_record_def serialize_frame_prefix deserialize_prefix)

theorem container_roundtrip_witness:
  "valid_record sample_record
     \<and> deserialize_frame (serialize_frame sample_record) = Inr sample_record"
proof -
  have v: "valid_record sample_record"
    by (simp add: valid_record_def sample_record_def FRAME_WIDTH_def FRAME_HEIGHT_def
        FRAME_CHANNELS_def)
  show ?thesis using v container_roundtrip [OF v] by simp
qed

lemma crc_step_bit31: "bit (crc_step c) 31 = bit c 0"
  by (auto simp add: crc_step_def bit_simps dest: bit_imp_le_length)

lemma crc_step_low:
  "n < 31 \<Longrightarrow> bit (crc_step c) n = (bit c (Suc n) \<noteq> (bit c 0 \<and> bit (0xEDB88320 :: u32) n))"
  by (auto simp add: crc_step_def bit_simps)

lemma crc_step_inj: "crc_step a = crc_step b \<Longrightarrow> a = b"
proof (rule bit_word_eqI)
  fix n :: nat
  assume eq: "crc_step a = crc_step b" and "n < LENGTH(32)"
  then have n: "n < 32" by simp
  have b0: "bit a 0 = bit b 0"
    using eq crc_step_bit31 by metis
  show "bit a n = bit b n"
  proof (cases n)
    case 0
    then show ?thesis using b0 by simp
  next
    case (Suc m)
    then have m: "m < 31" using n by simp
    have "bit (crc_step a) m = bit (crc_step b) m" using eq by simp
    then show ?thesis using b0 Suc unfolding crc_step_low [OF m] by blast
  qed
qed

lemma crc_steps_inj: "(crc_step ^^ k) a = (crc_step ^^ k) b \<Longrightarrow> a = b"
  by (induction k arbitrary: a b) (auto dest: crc_step_inj)

lemma xor_cancel_right: "(a :: u32) XOR x = b XOR x \<Longrightarrow> a = b"
  by (drule arg_cong [where f = "\<lambda>w. w XOR x"]) (simp add: xor.assoc)

lemma xor_cancel_left: "(c :: u32) XOR x = c XOR y \<Longrightarrow> x = y"
  by (drule arg_cong [where f = "\<lambda>w. c XOR w"]) (simp flip: xor.assoc)

lemma ucast_u8_inj: "(ucast (x :: u8) :: u32) = ucast y \<Longrightarrow> x = y"
  by (drule arg_cong [where f = "ucast :: u32 \<Rightarrow> u8"]) (simp add: ucast_up_ucast_id is_up)

lemma crc_byte_inj_state: "crc_byte a x = crc_byte b x \<Longrightarrow> a = b"
  unfolding crc_byte_def by (drule crc_steps_inj) (rule xor_cancel_right)

lemma crc_byte_inj_byte: "crc_byte c x = crc_byte c y \<Longrightarrow> x = y"
  unfolding crc_byte_def by (drule crc_steps_inj) (blast dest: xor_cancel_left ucast_u8_inj)

lemma foldl_crc_byte_inj: "foldl crc_byte a xs = foldl crc_byte b xs \<Longrightarrow> a = b"
  by (induction xs arbitrary: a b) (auto dest: crc_byte_inj_state)

lemma crc32_single_byte:
  assumes "x \<noteq> y"
  shows "crc32 c (pre @ x # suf) \<noteq> crc32 c (pre @ y # suf)"
proof
  assume "crc32 c (pre @ x # suf) = crc32 c (pre @ y # suf)"
  then have "foldl crc_byte (crc_byte (foldl crc_byte (c XOR 0xFFFFFFFF) pre) x) suf
      = foldl crc_byte (crc_byte (foldl crc_byte (c XOR 0xFFFFFFFF) pre) y) suf"
    by (auto simp add: crc32_def dest: xor_cancel_right)
  then have "x = y"
    by (blast dest: foldl_crc_byte_inj crc_byte_inj_byte)
  with assms show False by simp
qed

lemma flip_bit_u8_neq: "j < 8 \<Longrightarrow> flip_bit j (x :: u8) \<noteq> x"
proof
  assume j: "j < 8" and eq: "flip_bit j x = x"
  have "bit (flip_bit j x) j = (\<not> bit x j)"
    using j by (simp add: bit_flip_bit_iff)
  with eq show False by simp
qed

lemma checksum_update_neq:
  assumes "k < length d" "v \<noteq> d ! k"
  shows "calculate_checksum (d[k := v]) \<noteq> calculate_checksum d"
proof -
  have d: "d = take k d @ d ! k # drop (Suc k) d"
    using assms(1) by (simp add: id_take_nth_drop)
  have u: "d[k := v] = take k d @ v # drop (Suc k) d"
    using assms(1) by (simp add: upd_conv_take_nth_drop)
  have "crc32 0 (take k d @ v # drop (Suc k) d) \<noteq> crc32 0 (take k d @ d ! k # drop (Suc k) d)"
    using assms(2) by (rule crc32_single_byte)
  then show ?thesis
    unfolding calculate_checksum_def using d u by simp
qed

lemma serialize_frame_update:
  assumes "32 \<le> k"
  shows "(serialize_frame r)[k := v] = frame_prefix (header r) @ (data r)[k - 32 := v]"
  using assms by (simp add: serialize_frame_prefix list_update_append length_frame_prefix)

lemma serialize_frame_nth:
  assumes "32 \<le> k"
  shows "serialize_frame r ! k = data r ! (k - 32)"
  using assms by (simp add: serialize_frame_prefix nth_append length_frame_prefix)

lemma length_serialize_frame: "length (serialize_frame r) = 32 + length (data r)"
  by (simp add: serialize_frame_prefix length_frame_prefix)

text \<open>
  C7 (CRC verification): for every valid record with a non-empty payload, flipping any
  single bit \<open>j\<close> of any byte \<open>k\<close> of the payload region of the serialized bytes
  (offsets 32 and above) makes \<open>deserialize_frame\<close> fail with \<open>GVC_ERROR_FORMAT\<close>.
\<close>

theorem crc_detects_bit_flip:
  assumes "valid_record r" and "data r \<noteq> []"
    and "32 \<le> k" and "k < length (serialize_frame r)" and "j < 8"
  shows "deserialize_frame ((serialize_frame r)[k := flip_bit j (serialize_frame r ! k)])
           = Inl GVC_ERROR_FORMAT"
proof -
  let ?d = "(data r)[k - 32 := flip_bit j (data r ! (k - 32))]"
  have k: "k - 32 < length (data r)"
    using assms(3,4) by (simp add: length_serialize_frame)
  have neq: "calculate_checksum ?d \<noteq> calculate_checksum (data r)"
    using k flip_bit_u8_neq [OF assms(5)] by (rule checksum_update_neq)
  have ne: "?d \<noteq> []" using assms(2) by simp
  have "deserialize_frame (frame_prefix (header r) @ ?d) = Inl GVC_ERROR_FORMAT"
    using assms(1) neq ne by (simp add: valid_record_def deserialize_prefix)
  then show ?thesis
    by (simp add: serialize_frame_update [OF assms(3)] serialize_frame_nth [OF assms(3)])
qed

theorem crc_detects_bit_flip_witness:
  "valid_record sample_record \<and> data sample_record \<noteq> []
     \<and> (32 :: nat) \<le> 33 \<and> 33 < length (serialize_frame sample_record) \<and> (5 :: nat) < 8
     \<and> deserialize_frame
          ((serialize_frame sample_record)[33 := flip_bit 5 (serialize_frame sample_record ! 33)])
        = Inl GVC_ERROR_FORMAT"
proof -
  have v: "valid_record sample_record"
    by (simp add: valid_record_def sample_record_def FRAME_WIDTH_def FRAME_HEIGHT_def
        FRAME_CHANNELS_def)
  have d: "data sample_record \<noteq> []" by (simp add: sample_record_def)
  have l: "33 < length (serialize_frame sample_record)"
    by (simp add: length_serialize_frame sample_record_def)
  show ?thesis
    using v d l crc_detects_bit_flip [OF v d _ l, of 5] by simp
qed

section \<open>The run-length transform\<close>

lemma identical_run_loop_ge: "run \<le> identical_run_loop cur prev n i run"
proof (induction cur prev n i run rule: identical_run_loop.induct)
  case (1 cur prev n i run)
  show ?case
  proof (cases "i + run < n \<and> cur ! (i + run) = prev ! (i + run) \<and> run < 255")
    case True
    then show ?thesis
      using "1.IH" [OF True] by (subst identical_run_loop.simps) simp
  next
    case False
    then show ?thesis by (subst identical_run_loop.simps) auto
  qed
qed

lemma identical_run_loop_bounds:
  "run \<le> 255 \<Longrightarrow> i + run \<le> n \<Longrightarrow>
   identical_run_loop cur prev n i run \<le> 255 \<and> i + identical_run_loop cur prev n i run \<le> n"
proof (induction cur prev n i run rule: identical_run_loop.induct)
  case (1 cur prev n i run)
  show ?case
  proof (cases "i + run < n \<and> cur ! (i + run) = prev ! (i + run) \<and> run < 255")
    case True
    then show ?thesis
      using "1.IH" [OF True] by (subst (1 2) identical_run_loop.simps) simp
  next
    case False
    then show ?thesis using "1.prems" by (subst (1 2) identical_run_loop.simps) auto
  qed
qed

lemma identical_run_loop_equal:
  "run \<le> k \<Longrightarrow> k < identical_run_loop cur prev n i run \<Longrightarrow> cur ! (i + k) = prev ! (i + k)"
proof (induction cur prev n i run rule: identical_run_loop.induct)
  case (1 cur prev n i run)
  show ?case
  proof (cases "i + run < n \<and> cur ! (i + run) = prev ! (i + run) \<and> run < 255")
    case True
    have unfold: "identical_run_loop cur prev n i run = identical_run_loop cur prev n i (run + 1)"
      using True by (subst identical_run_loop.simps) simp
    show ?thesis
    proof (cases "k = run")
      case True
      then show ?thesis using \<open>i + run < n \<and> cur ! (i + run) = prev ! (i + run) \<and> run < 255\<close> by simp
    next
      case False
      then have "run + 1 \<le> k" using "1.prems"(1) by simp
      then show ?thesis using "1.IH" [OF True] "1.prems"(2) unfold by simp
    qed
  next
    case False
    then have "identical_run_loop cur prev n i run = run"
      by (subst identical_run_loop.simps) auto
    then show ?thesis using "1.prems" by simp
  qed
qed

lemma identical_run_loop_zero:
  assumes "identical_run_loop cur prev n i 0 = 0" and "i < n"
  shows "cur ! i \<noteq> prev ! i"
proof
  assume eq: "cur ! i = prev ! i"
  have "identical_run_loop cur prev n i 0 = identical_run_loop cur prev n i (0 + 1)"
    using eq assms(2) by (subst identical_run_loop.simps) simp
  moreover have "0 + 1 \<le> identical_run_loop cur prev n i (0 + 1)"
    by (rule identical_run_loop_ge)
  ultimately show False using assms(1) by simp
qed

lemma diff_run_loop_ge: "run \<le> diff_run_loop cur prev n i run"
proof (induction cur prev n i run rule: diff_run_loop.induct)
  case (1 cur prev n i run)
  show ?case
  proof (cases "i + run < n \<and> cur ! (i + run) \<noteq> prev ! (i + run) \<and> run < 255")
    case True
    then show ?thesis
      using "1.IH" [OF True] by (subst diff_run_loop.simps) simp
  next
    case False
    then show ?thesis by (subst diff_run_loop.simps) auto
  qed
qed

lemma diff_run_loop_bounds:
  "run \<le> 255 \<Longrightarrow> i + run \<le> n \<Longrightarrow>
   diff_run_loop cur prev n i run \<le> 255 \<and> i + diff_run_loop cur prev n i run \<le> n"
proof (induction cur prev n i run rule: diff_run_loop.induct)
  case (1 cur prev n i run)
  show ?case
  proof (cases "i + run < n \<and> cur ! (i + run) \<noteq> prev ! (i + run) \<and> run < 255")
    case True
    then show ?thesis
      using "1.IH" [OF True] by (subst (1 2) diff_run_loop.simps) simp
  next
    case False
    then show ?thesis using "1.prems" by (subst (1 2) diff_run_loop.simps) auto
  qed
qed

lemma diff_run_loop_pos:
  assumes "cur ! i \<noteq> prev ! i" and "i < n"
  shows "0 < diff_run_loop cur prev n i 0"
proof -
  have "diff_run_loop cur prev n i 0 = diff_run_loop cur prev n i (0 + 1)"
    using assms by (subst diff_run_loop.simps) simp
  moreover have "0 + 1 \<le> diff_run_loop cur prev n i (0 + 1)"
    by (rule diff_run_loop_ge)
  ultimately show ?thesis by simp
qed

lemma delta_loop_done: "\<not> i < n \<Longrightarrow> delta_loop cur prev n i buf = buf"
  by (subst delta_loop.simps) simp

lemma delta_loop_identical:
  assumes "i < n" and "0 < identical_run_loop cur prev n i 0"
  shows "delta_loop cur prev n i buf =
           delta_loop cur prev n (i + identical_run_loop cur prev n i 0)
             (buf @ [0x00, of_nat (identical_run_loop cur prev n i 0)])"
  using assms by (subst delta_loop.simps) (simp add: Let_def)

lemma delta_loop_diff:
  assumes "i < n" and "identical_run_loop cur prev n i 0 = 0"
  shows "delta_loop cur prev n i buf =
           delta_loop cur prev n (i + diff_run_loop cur prev n i 0)
             (buf @ [0x01, of_nat (diff_run_loop cur prev n i 0)]
                  @ emit_deltas cur prev i (diff_run_loop cur prev n i 0))"
proof -
  have "0 < diff_run_loop cur prev n i 0"
    using assms by (intro diff_run_loop_pos identical_run_loop_zero)
  then show ?thesis
    using assms by (subst delta_loop.simps) (simp add: Let_def)
qed

lemma delta_loop_append: "delta_loop cur prev n i buf = buf @ delta_loop cur prev n i []"
proof (induction "n - i" arbitrary: i buf rule: less_induct)
  case less
  show ?case
  proof (cases "i < n")
    case False
    then show ?thesis by (simp add: delta_loop_done)
  next
    case True
    show ?thesis
    proof (cases "0 < identical_run_loop cur prev n i 0")
      case pos: True
      let ?r = "identical_run_loop cur prev n i 0"
      have dec: "n - (i + ?r) < n - i" using True pos by simp
      have "delta_loop cur prev n i buf = delta_loop cur prev n (i + ?r) (buf @ [0x00, of_nat ?r])"
        by (rule delta_loop_identical [OF True pos])
      also have "\<dots> = (buf @ [0x00, of_nat ?r]) @ delta_loop cur prev n (i + ?r) []"
        by (rule less [OF dec])
      finally have a: "delta_loop cur prev n i buf
          = (buf @ [0x00, of_nat ?r]) @ delta_loop cur prev n (i + ?r) []" .
      have "delta_loop cur prev n i [] = delta_loop cur prev n (i + ?r) ([] @ [0x00, of_nat ?r])"
        by (rule delta_loop_identical [OF True pos])
      also have "\<dots> = ([] @ [0x00, of_nat ?r]) @ delta_loop cur prev n (i + ?r) []"
        by (rule less [OF dec])
      finally show ?thesis using a by simp
    next
      case False
      then have zero: "identical_run_loop cur prev n i 0 = 0" by simp
      let ?d = "diff_run_loop cur prev n i 0"
      have "0 < ?d"
        using True zero by (intro diff_run_loop_pos identical_run_loop_zero)
      then have dec: "n - (i + ?d) < n - i" using True by simp
      let ?e = "[0x01, of_nat ?d] @ emit_deltas cur prev i ?d"
      have "delta_loop cur prev n i buf = delta_loop cur prev n (i + ?d) (buf @ ?e)"
        by (rule delta_loop_diff [OF True zero])
      also have "\<dots> = (buf @ ?e) @ delta_loop cur prev n (i + ?d) []"
        by (rule less [OF dec])
      finally have a: "delta_loop cur prev n i buf = (buf @ ?e) @ delta_loop cur prev n (i + ?d) []" .
      have "delta_loop cur prev n i [] = delta_loop cur prev n (i + ?d) ([] @ ?e)"
        by (rule delta_loop_diff [OF True zero])
      also have "\<dots> = ([] @ ?e) @ delta_loop cur prev n (i + ?d) []"
        by (rule less [OF dec])
      finally show ?thesis using a by simp
    qed
  qed
qed

lemma delta_stream_identical:
  assumes "i < n" and "0 < identical_run_loop cur prev n i 0"
  shows "delta_loop cur prev n i [] =
           [0x00, of_nat (identical_run_loop cur prev n i 0)]
             @ delta_loop cur prev n (i + identical_run_loop cur prev n i 0) []"
proof -
  have "delta_loop cur prev n i [] =
      delta_loop cur prev n (i + identical_run_loop cur prev n i 0)
        ([] @ [0x00, of_nat (identical_run_loop cur prev n i 0)])"
    by (rule delta_loop_identical [OF assms])
  also have "\<dots> = ([] @ [0x00, of_nat (identical_run_loop cur prev n i 0)])
      @ delta_loop cur prev n (i + identical_run_loop cur prev n i 0) []"
    by (rule delta_loop_append)
  finally show ?thesis by simp
qed

lemma delta_stream_diff:
  assumes "i < n" and "identical_run_loop cur prev n i 0 = 0"
  shows "delta_loop cur prev n i [] =
           [0x01, of_nat (diff_run_loop cur prev n i 0)]
             @ emit_deltas cur prev i (diff_run_loop cur prev n i 0)
             @ delta_loop cur prev n (i + diff_run_loop cur prev n i 0) []"
proof -
  let ?d = "diff_run_loop cur prev n i 0"
  have "delta_loop cur prev n i [] =
      delta_loop cur prev n (i + ?d) ([] @ [0x01, of_nat ?d] @ emit_deltas cur prev i ?d)"
    by (rule delta_loop_diff [OF assms])
  also have "\<dots> = ([] @ [0x01, of_nat ?d] @ emit_deltas cur prev i ?d)
      @ delta_loop cur prev n (i + ?d) []"
    by (rule delta_loop_append)
  finally show ?thesis by simp
qed

section \<open>Replaying the encoder's command stream\<close>

lemma uint_u8_bounds: "0 \<le> uint (x :: u8) \<and> uint x \<le> 255"
  using uint_lt2p [of x] by simp

lemma sint_delta_byte:
  "sint (delta_byte c p) = (uint c - uint p + 128) mod 256 - 128"
proof -
  let ?x = "uint c - uint p"
  have a: "?x AND 255 = take_bit 8 ?x"
    by (simp add: take_bit_eq_mask mask_eq_exp_minus_1)
  have b: "(word_of_int (take_bit 8 ?x) :: u8) = word_of_int ?x"
    by (rule iffD2 [OF word_of_int_eq_iff]) simp
  have "sint (delta_byte c p) = sint (word_of_int ?x :: u8)"
    by (simp only: delta_byte_def a b)
  also have "\<dots> = (?x + 2 ^ (LENGTH(8) - 1)) mod 2 ^ LENGTH(8) - 2 ^ (LENGTH(8) - 1)"
    by (rule int_word_sint)
  finally show ?thesis by simp
qed

lemma recon_cases:
  "recon c p = (if 127 < uint c - uint p then 0
                else if uint c - uint p < - 128 then 255
                else c)"
proof -
  let ?x = "uint c - uint p"
  have c: "0 \<le> uint c" "uint c \<le> 255" and p: "0 \<le> uint p" "uint p \<le> 255"
    using uint_u8_bounds by auto
  consider "127 < ?x" | "?x < - 128" | "- 128 \<le> ?x" "?x \<le> 127" by linarith
  then show ?thesis
  proof cases
    case 1
    have "(?x + 128) mod 256 = (?x - 128 + 256) mod 256"
      by (rule arg_cong [where f = "\<lambda>y. y mod 256"]) linarith
    also have "\<dots> = (?x - 128) mod 256" by (simp only: mod_add_self2)
    also have "\<dots> = ?x - 128" using 1 c p by (intro mod_pos_pos_trivial) linarith+
    finally have "(?x + 128) mod 256 = ?x - 128" .
    then show ?thesis using 1 c p
      by (simp add: recon_def sint_delta_byte CLAMP_def)
  next
    case 2
    have "(?x + 128) mod 256 = (?x + 128 + 256) mod 256" by (simp only: mod_add_self2)
    also have "\<dots> = (?x + 384) mod 256"
      by (rule arg_cong [where f = "\<lambda>y. y mod 256"]) linarith
    also have "\<dots> = ?x + 384" using 2 c p by (intro mod_pos_pos_trivial) linarith+
    finally have "(?x + 128) mod 256 = ?x + 384" .
    then show ?thesis using 2 c p
      by (simp add: recon_def sint_delta_byte CLAMP_def)
  next
    case 3
    have "(?x + 128) mod 256 = ?x + 128"
      using 3 by (intro mod_pos_pos_trivial) linarith+
    then show ?thesis using 3 c p
      by (simp add: recon_def sint_delta_byte CLAMP_def)
  qed
qed

lemma recon_same: "recon p p = p"
  by (simp add: recon_cases)

lemma length_partial_out: "length (partial_out cur prev n m) = n"
  by (simp add: partial_out_def)

lemma partial_out_zero: "n \<le> length prev \<Longrightarrow> partial_out cur prev n 0 = take n prev"
  by (simp add: partial_out_def list_eq_iff_nth_eq)

lemma partial_out_step:
  assumes "m < n"
  shows "(partial_out cur prev n m)[m := word_of_int (CLAMP (uint (partial_out cur prev n m ! m)
            + sint (delta_byte (cur ! m) (prev ! m))) 0 255)]
         = partial_out cur prev n (m + 1)"
  using assms
  by (auto simp add: partial_out_def list_eq_iff_nth_eq nth_list_update recon_def)

lemma partial_out_skip:
  assumes "\<forall>k. m \<le> k \<and> k < m + r \<longrightarrow> cur ! k = prev ! k"
  shows "partial_out cur prev n m = partial_out cur prev n (m + r)"
  using assms
  by (auto simp add: partial_out_def recon_same)

lemma apply_delta_partial:
  assumes "pixel_pos s = m" and "m < n" and "out_pixels s = partial_out cur prev n m"
    and "db ! delta_pos s = delta_byte (cur ! m) (prev ! m)"
  shows "apply_delta db s =
           \<lparr> delta_pos = delta_pos s + 1, pixel_pos = m + 1,
             out_pixels = partial_out cur prev n (m + 1), writes = writes s @ [m] \<rparr>"
  using assms partial_out_step [OF assms(2), of cur prev]
  by (simp add: apply_delta_def Let_def)

lemma apply_deltas_run:
  assumes "j \<le> d" and "i + d \<le> n" and "base + d \<le> ds"
    and "\<forall>k<d. db ! (base + k) = delta_byte (cur ! (i + k)) (prev ! (i + k))"
    and "delta_pos s = base + j" and "pixel_pos s = i + j"
    and "out_pixels s = partial_out cur prev n (i + j)"
  shows "apply_deltas db ds n d j s =
           \<lparr> delta_pos = base + d, pixel_pos = i + d,
             out_pixels = partial_out cur prev n (i + d),
             writes = writes s @ [i + j..<i + d] \<rparr>"
  using assms
proof (induction "d - j" arbitrary: j s)
  case 0
  then have "j = d" by simp
  then have "apply_deltas db ds n d j s = s"
    by (intro apply_deltas_stop) simp
  then show ?case using 0 \<open>j = d\<close> by simp
next
  case (Suc x)
  then have j: "j < d" by simp
  let ?s = "apply_delta db s"
  have cond: "j < d \<and> pixel_pos s < n \<and> delta_pos s < ds"
    using j Suc.prems by simp
  have byte: "db ! delta_pos s = delta_byte (cur ! (i + j)) (prev ! (i + j))"
    using Suc.prems(4,5) j by simp
  have s': "?s = \<lparr> delta_pos = delta_pos s + 1, pixel_pos = i + j + 1,
             out_pixels = partial_out cur prev n (i + j + 1), writes = writes s @ [i + j] \<rparr>"
    using Suc.prems j by (intro apply_delta_partial byte) simp_all
  have "apply_deltas db ds n d j s = apply_deltas db ds n d (j + 1) ?s"
    by (rule apply_deltas_step [OF cond])
  also have "\<dots> = \<lparr> delta_pos = base + d, pixel_pos = i + d,
             out_pixels = partial_out cur prev n (i + d),
             writes = writes ?s @ [i + (j + 1)..<i + d] \<rparr>"
    using Suc.hyps(2) j Suc.prems(2,3,4,5)
    by (intro Suc.hyps(1)) (simp_all add: s')
  also have "writes ?s @ [i + (j + 1)..<i + d] = writes s @ [i + j..<i + d]"
    using j by (simp add: s' upt_conv_Cons)
  finally show ?case .
qed

lemma replay_loop_stop:
  "\<not> (delta_pos s < ds \<and> pixel_pos s < pc) \<Longrightarrow> replay_loop db ds pc s = s"
  by (subst replay_loop.simps) (rule if_not_P)

lemma replay_loop_truncated:
  "delta_pos s < ds \<Longrightarrow> pixel_pos s < pc \<Longrightarrow> ds \<le> delta_pos s + 1 \<Longrightarrow>
   replay_loop db ds pc s = s \<lparr> delta_pos := delta_pos s + 1 \<rparr>"
  by (subst replay_loop.simps) (simp add: Let_def)

lemma replay_loop_identical:
  "delta_pos s + 1 < ds \<Longrightarrow> pixel_pos s < pc \<Longrightarrow> db ! delta_pos s = 0x00 \<Longrightarrow>
   replay_loop db ds pc s =
     replay_loop db ds pc
       (s \<lparr> delta_pos := delta_pos s + 2,
            pixel_pos := pixel_pos s + unat (db ! (delta_pos s + 1)) \<rparr>)"
  by (subst replay_loop.simps) (simp add: Let_def)

lemma replay_loop_diff:
  "delta_pos s + 1 < ds \<Longrightarrow> pixel_pos s < pc \<Longrightarrow> db ! delta_pos s = 0x01 \<Longrightarrow>
   replay_loop db ds pc s =
     replay_loop db ds pc
       (apply_deltas db ds pc (unat (db ! (delta_pos s + 1))) 0
          (s \<lparr> delta_pos := delta_pos s + 2 \<rparr>))"
  by (subst replay_loop.simps) (simp add: Let_def)

lemma replay_loop_other:
  "delta_pos s + 1 < ds \<Longrightarrow> pixel_pos s < pc \<Longrightarrow> db ! delta_pos s \<noteq> 0x00 \<Longrightarrow>
   db ! delta_pos s \<noteq> 0x01 \<Longrightarrow>
   replay_loop db ds pc s = replay_loop db ds pc (s \<lparr> delta_pos := delta_pos s + 2 \<rparr>)"
  by (subst replay_loop.simps) (simp add: Let_def)

lemma length_emit_deltas: "length (emit_deltas cur prev i d) = d"
  by (simp add: emit_deltas_def)

lemma nth_emit_deltas:
  "k < d \<Longrightarrow> emit_deltas cur prev i d ! k = delta_byte (cur ! (i + k)) (prev ! (i + k))"
  by (simp add: emit_deltas_def)

lemma unat_run_length: "r \<le> 255 \<Longrightarrow> unat (of_nat r :: u8) = r"
  by (simp add: unat_of_nat)

lemma replay_stream:
  assumes "i \<le> n" and "db = pre @ delta_loop cur prev n i []"
    and "delta_pos s = length pre" and "pixel_pos s = i"
    and "out_pixels s = partial_out cur prev n i"
  shows "out_pixels (replay_loop db (length db) n s) = partial_out cur prev n n"
  using assms
proof (induction "n - i" arbitrary: i s pre rule: less_induct)
  case less
  show ?case
  proof (cases "i < n")
    case False
    then have "i = n" using less.prems(1) by simp
    then have "replay_loop db (length db) n s = s"
      using less.prems(4) by (intro replay_loop_stop) simp
    then show ?thesis using less.prems(5) \<open>i = n\<close> by simp
  next
    case True
    show ?thesis
    proof (cases "0 < identical_run_loop cur prev n i 0")
      case pos: True
      let ?r = "identical_run_loop cur prev n i 0"
      let ?rest = "delta_loop cur prev n (i + ?r) []"
      have bounds: "?r \<le> 255" "i + ?r \<le> n"
        using identical_run_loop_bounds [of 0 i n cur prev] True by simp_all
      have db: "db = pre @ [0x00, of_nat ?r] @ ?rest"
        using less.prems(2) delta_stream_identical [OF True pos] by simp
      let ?s = "s \<lparr> delta_pos := delta_pos s + 2,
                    pixel_pos := pixel_pos s + unat (db ! (delta_pos s + 1)) \<rparr>"
      have cmd: "db ! delta_pos s = 0x00"
        using less.prems(3) by (simp add: db nth_append)
      have run: "unat (db ! (delta_pos s + 1)) = ?r"
        using less.prems(3) bounds(1) by (simp add: db nth_append unat_run_length)
      have step: "replay_loop db (length db) n s = replay_loop db (length db) n ?s"
        using less.prems(3,4) True cmd by (intro replay_loop_identical) (simp_all add: db)
      have skip: "partial_out cur prev n i = partial_out cur prev n (i + ?r)"
      proof (rule partial_out_skip, intro allI impI)
        fix k assume k: "i \<le> k \<and> k < i + ?r"
        then have "0 \<le> k - i" and "k - i < ?r" by auto
        then have "cur ! (i + (k - i)) = prev ! (i + (k - i))"
          by (rule identical_run_loop_equal)
        then show "cur ! k = prev ! k" using k by simp
      qed
      have "out_pixels (replay_loop db (length db) n ?s) = partial_out cur prev n n"
      proof (rule less.hyps [of "i + ?r" "pre @ [0x00, of_nat ?r]"])
        show "n - (i + ?r) < n - i" using True pos by simp
        show "i + ?r \<le> n" by (rule bounds(2))
        show "db = (pre @ [0x00, of_nat ?r]) @ ?rest" using db by simp
        show "delta_pos ?s = length (pre @ [0x00, of_nat ?r])" using less.prems(3) by simp
        show "pixel_pos ?s = i + ?r" using less.prems(4) run by simp
        show "out_pixels ?s = partial_out cur prev n (i + ?r)" using less.prems(5) skip by simp
      qed
      then show ?thesis using step by simp
    next
      case False
      then have zero: "identical_run_loop cur prev n i 0 = 0" by simp
      let ?d = "diff_run_loop cur prev n i 0"
      let ?e = "emit_deltas cur prev i ?d"
      let ?rest = "delta_loop cur prev n (i + ?d) []"
      have dpos: "0 < ?d"
        using True zero by (intro diff_run_loop_pos identical_run_loop_zero)
      have bounds: "?d \<le> 255" "i + ?d \<le> n"
        using diff_run_loop_bounds [of 0 i n cur prev] True by simp_all
      have db: "db = pre @ [0x01, of_nat ?d] @ ?e @ ?rest"
        using less.prems(2) delta_stream_diff [OF True zero] by simp
      let ?s2 = "s \<lparr> delta_pos := delta_pos s + 2 \<rparr>"
      let ?s3 = "apply_deltas db (length db) n (unat (db ! (delta_pos s + 1))) 0 ?s2"
      have cmd: "db ! delta_pos s = 0x01"
        using less.prems(3) by (simp add: db nth_append)
      have run: "unat (db ! (delta_pos s + 1)) = ?d"
        using less.prems(3) bounds(1) by (simp add: db nth_append unat_run_length)
      have step: "replay_loop db (length db) n s = replay_loop db (length db) n ?s3"
        using less.prems(3,4) True cmd by (intro replay_loop_diff) (simp_all add: db)
      have bytes: "\<forall>k<?d. db ! (length pre + 2 + k)
                      = delta_byte (cur ! (i + k)) (prev ! (i + k))"
        by (simp add: db nth_append length_emit_deltas nth_emit_deltas)
      have s3: "?s3 = \<lparr> delta_pos = length pre + 2 + ?d, pixel_pos = i + ?d,
                        out_pixels = partial_out cur prev n (i + ?d),
                        writes = writes ?s2 @ [i + 0..<i + ?d] \<rparr>"
        unfolding run
      proof (rule apply_deltas_run [where base = "length pre + 2"])
        show "0 \<le> ?d" by simp
        show "i + ?d \<le> n" by (rule bounds(2))
        show "length pre + 2 + ?d \<le> length db" by (simp add: db length_emit_deltas)
        show "\<forall>k<?d. db ! (length pre + 2 + k) = delta_byte (cur ! (i + k)) (prev ! (i + k))"
          by (rule bytes)
        show "delta_pos ?s2 = length pre + 2 + 0" using less.prems(3) by simp
        show "pixel_pos ?s2 = i + 0" using less.prems(4) by simp
        show "out_pixels ?s2 = partial_out cur prev n (i + 0)" using less.prems(5) by simp
      qed
      have "out_pixels (replay_loop db (length db) n ?s3) = partial_out cur prev n n"
      proof (rule less.hyps [of "i + ?d" "pre @ [0x01, of_nat ?d] @ ?e"])
        show "n - (i + ?d) < n - i" using True dpos by simp
        show "i + ?d \<le> n" by (rule bounds(2))
        show "db = (pre @ [0x01, of_nat ?d] @ ?e) @ ?rest" using db by simp
        show "delta_pos ?s3 = length (pre @ [0x01, of_nat ?d] @ ?e)"
          unfolding s3 by (simp add: length_emit_deltas)
        show "pixel_pos ?s3 = i + ?d" unfolding s3 by simp
        show "out_pixels ?s3 = partial_out cur prev n (i + ?d)" unfolding s3 by simp
      qed
      then show ?thesis using step by simp
    qed
  qed
qed

section \<open>Stores of the replay loop\<close>

lemma writes_ok_apply_delta:
  "writes_ok pc s \<Longrightarrow> pixel_pos s < pc \<Longrightarrow> writes_ok pc (apply_delta db s)"
  by (simp add: writes_ok_def apply_delta_def Let_def)

lemma writes_ok_apply_deltas:
  "writes_ok pc s \<Longrightarrow> writes_ok pc (apply_deltas db ds pc rl i s)"
proof (induction db ds pc rl i s rule: apply_deltas.induct)
  case (1 db ds pc rl i s)
  show ?case
  proof (cases "i < rl \<and> pixel_pos s < pc \<and> delta_pos s < ds")
    case True
    then have "writes_ok pc (apply_delta db s)"
      using "1.prems" by (simp add: writes_ok_apply_delta)
    then show ?thesis
      using "1.IH" [OF True] by (simp only: apply_deltas_step [OF True])
  next
    case False
    then show ?thesis using "1.prems" by (simp only: apply_deltas_stop [OF False])
  qed
qed

lemma writes_ok_replay_loop:
  "writes_ok pc s \<Longrightarrow> writes_ok pc (replay_loop db ds pc s)"
proof (induction "ds - delta_pos s" arbitrary: s rule: less_induct)
  case less
  show ?case
  proof (cases "delta_pos s < ds \<and> pixel_pos s < pc")
    case False
    then show ?thesis using less.prems by (simp only: replay_loop_stop [OF False])
  next
    case True
    show ?thesis
    proof (cases "ds \<le> delta_pos s + 1")
      case trunc: True
      have "replay_loop db ds pc s = s \<lparr> delta_pos := delta_pos s + 1 \<rparr>"
        using True trunc by (intro replay_loop_truncated) simp_all
      then show ?thesis using less.prems by (simp add: writes_ok_def)
    next
      case False
      then have two: "delta_pos s + 1 < ds" by simp
      consider "db ! delta_pos s = 0x00" | "db ! delta_pos s = 0x01"
        | "db ! delta_pos s \<noteq> 0x00" "db ! delta_pos s \<noteq> 0x01" by blast
      then show ?thesis
      proof cases
        case 1
        let ?s = "s \<lparr> delta_pos := delta_pos s + 2,
                      pixel_pos := pixel_pos s + unat (db ! (delta_pos s + 1)) \<rparr>"
        have "writes_ok pc (replay_loop db ds pc ?s)"
          using two less.prems by (intro less.hyps) (simp_all add: writes_ok_def)
        then show ?thesis
          using True two 1 by (simp add: replay_loop_identical)
      next
        case 2
        let ?s2 = "s \<lparr> delta_pos := delta_pos s + 2 \<rparr>"
        let ?s3 = "apply_deltas db ds pc (unat (db ! (delta_pos s + 1))) 0 ?s2"
        have "delta_pos ?s2 \<le> delta_pos ?s3" by (rule apply_deltas_delta_pos_mono)
        then have dec: "ds - delta_pos ?s3 < ds - delta_pos s" using two by simp
        have "writes_ok pc ?s2" using less.prems by (simp add: writes_ok_def)
        then have "writes_ok pc ?s3" by (rule writes_ok_apply_deltas)
        then have "writes_ok pc (replay_loop db ds pc ?s3)"
          using dec by (intro less.hyps)
        then show ?thesis
          using True two 2 by (simp add: replay_loop_diff)
      next
        case 3
        let ?s = "s \<lparr> delta_pos := delta_pos s + 2 \<rparr>"
        have "writes_ok pc (replay_loop db ds pc ?s)"
          using two less.prems by (intro less.hyps) (simp_all add: writes_ok_def)
        then show ?thesis
          using True two 3 by (simp add: replay_loop_other)
      qed
    qed
  qed
qed

text \<open>
  C10 (decoder totality and in-bounds writes): for a command buffer of arbitrary contents
  and length and a predecessor of at least \<open>pixel_count\<close> bytes, every store of the
  replay loop into the output pixel buffer is at an index below \<open>pixel_count\<close>, and the
  buffer keeps its \<open>pixel_count\<close> bytes. The loop terminates on every input:
  \<open>replay_loop\<close> and \<open>apply_deltas\<close> are total functions, by the termination proofs
  given with their definitions (the distance of \<open>delta_pos\<close> to \<open>delta_size\<close> shrinks
  in every iteration).
\<close>

theorem replay_loop_writes_in_bounds:
  assumes "pixel_count \<le> length previous_pixels"
  shows "(\<forall>k \<in> set (writes (replay_loop delta_buffer delta_size pixel_count
              \<lparr> delta_pos = 0, pixel_pos = 0,
                out_pixels = take pixel_count previous_pixels, writes = [] \<rparr>)).
           k < pixel_count)
         \<and> length (out_pixels (replay_loop delta_buffer delta_size pixel_count
              \<lparr> delta_pos = 0, pixel_pos = 0,
                out_pixels = take pixel_count previous_pixels, writes = [] \<rparr>)) = pixel_count"
proof -
  have "writes_ok pixel_count \<lparr> delta_pos = 0, pixel_pos = 0,
                out_pixels = take pixel_count previous_pixels, writes = [] \<rparr>"
    using assms by (simp add: writes_ok_def)
  then have "writes_ok pixel_count (replay_loop delta_buffer delta_size pixel_count
              \<lparr> delta_pos = 0, pixel_pos = 0,
                out_pixels = take pixel_count previous_pixels, writes = [] \<rparr>)"
    by (rule writes_ok_replay_loop)
  then show ?thesis by (simp add: writes_ok_def list_all_iff)
qed

lemma replay_sample_writes:
  "writes (replay_loop [0x01, 0x09, 0x05, 0xFB, 0x7F] 5 3
     \<lparr> delta_pos = 0, pixel_pos = 0, out_pixels = take 3 [10, 20, 30, 40], writes = [] \<rparr>)
   = [0, 1, 2]"
  by (simp add: replay_loop.simps apply_deltas.simps apply_delta_def Let_def)

theorem replay_loop_writes_in_bounds_witness:
  "(3 :: nat) \<le> length [10, 20, 30, 40 :: u8]
   \<and> list_all (\<lambda>k. k < 3) (writes (replay_loop [0x01, 0x09, 0x05, 0xFB, 0x7F] 5 3
              \<lparr> delta_pos = 0, pixel_pos = 0,
                out_pixels = take 3 [10, 20, 30, 40], writes = [] \<rparr>))
   \<and> length (out_pixels (replay_loop [0x01, 0x09, 0x05, 0xFB, 0x7F] 5 3
              \<lparr> delta_pos = 0, pixel_pos = 0,
                out_pixels = take 3 [10, 20, 30, 40], writes = [] \<rparr>)) = 3
   \<and> writes (replay_loop [0x01, 0x09, 0x05, 0xFB, 0x7F] 5 3
              \<lparr> delta_pos = 0, pixel_pos = 0,
                out_pixels = take 3 [10, 20, 30, 40], writes = [] \<rparr>) = [0, 1, 2]"
proof -
  have h: "(3 :: nat) \<le> length [10, 20, 30, 40 :: u8]" by simp
  show ?thesis
    using h replay_sample_writes
      replay_loop_writes_in_bounds [OF h, of "[0x01, 0x09, 0x05, 0xFB, 0x7F]" 5]
    by (simp add: list_all_iff)
qed

lemma delta_stream_le: "length (delta_loop cur prev n i []) \<le> 3 * (n - i)"
proof (induction "n - i" arbitrary: i rule: less_induct)
  case less
  show ?case
  proof (cases "i < n")
    case False
    then show ?thesis by (simp add: delta_loop_done)
  next
    case True
    show ?thesis
    proof (cases "0 < identical_run_loop cur prev n i 0")
      case pos: True
      let ?r = "identical_run_loop cur prev n i 0"
      have b: "i + ?r \<le> n" using identical_run_loop_bounds [of 0 i n cur prev] True by simp
      have "length (delta_loop cur prev n (i + ?r) []) \<le> 3 * (n - (i + ?r))"
        using True pos by (intro less) simp
      then show ?thesis
        using pos b by (simp add: delta_stream_identical [OF True pos])
    next
      case False
      then have zero: "identical_run_loop cur prev n i 0 = 0" by simp
      let ?d = "diff_run_loop cur prev n i 0"
      have dpos: "0 < ?d"
        using True zero by (intro diff_run_loop_pos identical_run_loop_zero)
      have b: "i + ?d \<le> n" using diff_run_loop_bounds [of 0 i n cur prev] True by simp
      have "length (delta_loop cur prev n (i + ?d) []) \<le> 3 * (n - (i + ?d))"
        using True dpos by (intro less) simp
      then show ?thesis
        using dpos b by (simp add: delta_stream_diff [OF True zero] length_emit_deltas)
    qed
  qed
qed

lemma delta_stream_nonempty: "0 < n \<Longrightarrow> delta_loop cur prev n 0 [] \<noteq> []"
  by (cases "0 < identical_run_loop cur prev n 0 0")
    (simp_all add: delta_stream_identical delta_stream_diff)

section \<open>The delta codec on frames\<close>

lemma partial_out_full:
  "length cur = n \<Longrightarrow> length prev = n \<Longrightarrow> partial_out cur prev n n = map2 clamped_byte cur prev"
  by (auto simp add: partial_out_def list_eq_iff_nth_eq recon_cases clamped_byte_def)

lemma map2_clamped_in_range:
  "list_all2 (\<lambda>c p. - 128 \<le> uint c - uint p \<and> uint c - uint p \<le> 127) cur prev
   \<Longrightarrow> map2 clamped_byte cur prev = cur"
  by (induction cur prev rule: list_all2_induct) (simp_all add: clamped_byte_def)

lemma clamped_frame_in_range: "delta_in_range cur prev \<Longrightarrow> clamped_frame cur prev = cur"
  by (simp add: delta_in_range_def clamped_frame_def map2_clamped_in_range)

lemma unat_times_2_le: "unat (x * 2 :: u32) \<le> unat x * 2"
  by (simp add: unat_word_ariths)

lemma lib_ok_encode:
  assumes "lib_ok L" and "xs \<noteq> []"
  shows "compression_encode_buffer L (compressBound L (length xs)) xs = lzfse_encode L xs"
    and "lzfse_encode L xs \<noteq> []"
  using assms by (simp_all add: lib_ok_def compression_encode_buffer_def Let_def)

lemma lib_ok_decode:
  assumes "lib_ok L" and "length xs \<le> cap"
  shows "compression_decode_buffer L cap (lzfse_encode L xs) = xs"
  using assms by (simp add: lib_ok_def compression_decode_buffer_def)

lemma compress_frame_delta_ok:
  assumes "lib_ok L" and "frame_ok w h c cur" and "frame_ok w h c prev"
    and "0 < unat (w * h * c)" and "delta_fits cur prev"
  shows "compress_frame_delta L cur prev output = Inr (delta_record L cur prev output)"
proof -
  let ?n = "unat (w * h * c)"
  let ?st = "delta_loop (pixels cur) (pixels prev) ?n 0 []"
  have st: "delta_stream cur prev = ?st"
    using assms(2) by (simp add: delta_stream_def frame_ok_def)
  have ne: "?st \<noteq> []" using assms(4) by (rule delta_stream_nonempty)
  have "length ?st \<le> unat (w * h * c * 2)"
    using assms(2,5) st by (simp add: delta_fits_def frame_ok_def)
  then have fit: "length ?st \<le> ?n * 2"
    using unat_times_2_le [of "w * h * c"] by linarith
  show ?thesis
    using assms(2,3) fit ne lib_ok_encode [OF assms(1) ne]
    by (simp add: compress_frame_delta_def frame_ok_def Let_def delta_record_def st)
qed

lemma decompress_frame_delta_stream:
  assumes "lib_ok L" and "frame_ok w h c cur" and "frame_ok w h c prev"
    and "0 < unat (w * h * c)" and "delta_fits cur prev"
    and "data fr = lzfse_encode L (delta_stream cur prev)"
    and "width (header fr) = w" and "height (header fr) = h" and "channels (header fr) = c"
  shows "decompress_frame_delta L fr prev = Inr (clamped_frame cur prev)"
proof -
  let ?n = "unat (w * h * c)"
  let ?st = "delta_loop (pixels cur) (pixels prev) ?n 0 []"
  let ?s0 = "\<lparr> delta_pos = 0, pixel_pos = 0, out_pixels = take ?n (pixels prev), writes = [] \<rparr>"
  have st: "delta_stream cur prev = ?st"
    using assms(2) by (simp add: delta_stream_def frame_ok_def)
  have ne: "?st \<noteq> []" using assms(4) by (rule delta_stream_nonempty)
  have fit: "length ?st \<le> unat (w * h * c * 2)"
    using assms(2,5) st by (simp add: delta_fits_def frame_ok_def)
  have dec: "compression_decode_buffer L (unat (w * h * c * 2)) (data fr) = ?st"
    using lib_ok_decode [OF assms(1) fit] assms(6) st by simp
  have lens: "length (pixels cur) = ?n" "length (pixels prev) = ?n"
    using assms(2,3) by (simp_all add: frame_ok_def)
  have "out_pixels (replay_loop ?st (length ?st) ?n ?s0)
          = partial_out (pixels cur) (pixels prev) ?n ?n"
    by (rule replay_stream [where pre = "[]" and i = 0])
      (simp_all add: partial_out_zero lens)
  then have out: "out_pixels (replay_loop ?st (length ?st) ?n ?s0)
          = map2 clamped_byte (pixels cur) (pixels prev)"
    by (simp add: partial_out_full lens)
  show ?thesis
    using assms(2,7,8,9) ne lens out
    by (simp add: decompress_frame_delta_def Let_def dec clamped_frame_def frame_ok_def)
qed

lemma delta_codec_identity_when_fits:
  assumes "lib_ok L" and "frame_ok w h c cur" and "frame_ok w h c prev"
    and "0 < unat (w * h * c)" and "delta_fits cur prev" and "delta_in_range cur prev"
  shows "compress_frame_delta L cur prev output = Inr (delta_record L cur prev output)
         \<and> decompress_frame_delta L (delta_record L cur prev output) prev = Inr cur"
proof -
  have "decompress_frame_delta L (delta_record L cur prev output) prev
          = Inr (clamped_frame cur prev)"
    using assms(2)
    by (intro decompress_frame_delta_stream [OF assms(1,2,3,4,5)])
      (simp_all add: delta_record_def frame_ok_def)
  then show ?thesis
    using compress_frame_delta_ok [OF assms(1,2,3,4,5)] clamped_frame_in_range [OF assms(6)]
    by simp
qed

section \<open>Encoder and decoder chains\<close>

lemmas eval_codec =
  compress_frame_delta_def compress_frame_raw_def decompress_frame_delta_def
  decompress_frame_raw_def encode_frame_to_commit_def decode_frame_def
  compression_encode_buffer_def compression_decode_buffer_def stored_lib_def mk_frame_def
  junk_frame_def delta_loop.simps identical_run_loop.simps diff_run_loop.simps
  emit_deltas_def delta_byte_def replay_loop.simps apply_deltas.simps apply_delta_def
  CLAMP_def Let_def

lemma stored_lib_ok: "lib_ok stored_lib"
  by (simp add: lib_ok_def stored_lib_def)

lemma compress_frame_raw_ok:
  assumes "lib_ok L" and "frame_ok w h c f" and "0 < unat (w * h * c)"
  shows "compress_frame_raw L f output = Inr (raw_record L f output)"
proof -
  have ne: "pixels f \<noteq> []" using assms(2,3) by (auto simp add: frame_ok_def)
  show ?thesis
    using assms(2) lib_ok_encode [OF assms(1) ne]
    by (simp add: compress_frame_raw_def frame_ok_def Let_def raw_record_def)
qed

lemma decompress_frame_raw_ok:
  assumes "lib_ok L" and "frame_ok w h c f" and "0 < unat (w * h * c)"
    and "data fr = lzfse_encode L (pixels f)"
    and "width (header fr) = w" and "height (header fr) = h" and "channels (header fr) = c"
  shows "decompress_frame_raw L fr = Inr f"
proof -
  have "compression_decode_buffer L (unat (w * h * c)) (data fr) = pixels f"
    using lib_ok_decode [OF assms(1), of "pixels f" "unat (w * h * c)"] assms(2,4)
    by (simp add: frame_ok_def)
  then show ?thesis
    using assms(2,3,5,6,7) by (auto simp add: decompress_frame_raw_def Let_def frame_ok_def)
qed

lemma encode_decode_chain:
  assumes "lib_ok L" and "0 < unat (w * h * c)"
  shows "frame_ok w h c prev \<Longrightarrow> \<forall>f \<in> set frames. frame_ok w h c f \<Longrightarrow> chain_ok prev frames \<Longrightarrow>
         \<exists>records. encode_video_sequence L junk (Some prev) k frames = Inr records
                  \<and> decoder_thread L (Some prev) records = map Inr frames"
proof (induction frames arbitrary: prev k)
  case Nil
  then show ?case by simp
next
  case (Cons cur rest)
  have cur: "frame_ok w h c cur" using Cons.prems(2) by simp
  have fits: "delta_fits cur prev" and range: "delta_in_range cur prev"
    and rest: "chain_ok cur rest"
    using Cons.prems(3) by simp_all
  let ?r = "commit_record (delta_record L cur prev junk) (of_nat k)"
  have enc: "encode_frame_to_commit L cur (Some prev) (of_nat k) junk = Inr ?r"
    using delta_codec_identity_when_fits [OF assms(1) cur Cons.prems(1) assms(2) fits range]
    by (simp add: encode_frame_to_commit_def commit_record_def)
  have "decompress_frame_delta L ?r prev = Inr (clamped_frame cur prev)"
    using cur
    by (intro decompress_frame_delta_stream [OF assms(1) cur Cons.prems(1) assms(2) fits])
      (simp_all add: commit_record_def delta_record_def frame_ok_def)
  then have dec: "decode_frame L ?r (Some prev) = Inr cur"
    using clamped_frame_in_range [OF range]
    by (simp add: decode_frame_def commit_record_def delta_record_def)
  obtain records where
    "encode_video_sequence L junk (Some cur) (k + 1) rest = Inr records"
    "decoder_thread L (Some cur) records = map Inr rest"
    using Cons.IH [OF cur _ rest] Cons.prems(2) by auto
  then show ?case using enc dec by simp
qed

text \<open>
  For the two 1x1x3 frames \<open>[0, 0, 0]\<close> and \<open>[200, 200, 200]\<close> the encoder succeeds
  (frame 1 is delta-coded, the byte difference 200 is stored as 0xC8), and decoding the two
  records in order yields \<open>[0, 0, 0]\<close> twice: the decoder reads 0xC8 as -56 and clamps
  the sum to 0.
\<close>

lemma drift_small_frames:
  "map_sum id (decoder_thread stored_lib None)
     (encode_video_sequence stored_lib junk_frame None 0 [lo_frame, hi_frame])
   = Inr [Inr lo_frame, Inr lo_frame]
   \<and> lo_frame \<noteq> hi_frame"
  by (simp add: eval_codec lo_frame_def hi_frame_def)

text \<open>
  Where the chain is exact: for every finite sequence of frames of common dimensions with
  a non-empty pixel buffer, in which every byte-wise difference between consecutive frames
  lies in [-128, 127] and every delta command stream fits the 2N-byte delta buffers, the
  encoder pipeline succeeds, and decoding the produced records in order yields at every
  index exactly the input frame of that index.
\<close>

lemma drift_free_chain_in_range:
  assumes "lib_ok L" and "0 < unat (w * h * c)"
    and "\<forall>f \<in> set frames. frame_ok w h c f" and "sequence_ok frames"
  shows "\<exists>records. encode_video_sequence L junk None 0 frames = Inr records
                  \<and> decoder_thread L None records = map Inr frames"
proof (cases frames)
  case Nil
  then show ?thesis by simp
next
  case (Cons first rest)
  have first: "frame_ok w h c first" using assms(3) Cons by simp
  let ?r = "commit_record (raw_record L first junk) 0"
  have enc: "encode_frame_to_commit L first None 0 junk = Inr ?r"
    using compress_frame_raw_ok [OF assms(1) first assms(2)]
    by (simp add: encode_frame_to_commit_def commit_record_def)
  have "decompress_frame_raw L ?r = Inr first"
    using first
    by (intro decompress_frame_raw_ok [OF assms(1) first assms(2)])
      (simp_all add: commit_record_def raw_record_def frame_ok_def)
  then have dec: "decode_frame L ?r None = Inr first"
    by (simp add: decode_frame_def commit_record_def raw_record_def)
  have "chain_ok first rest" using assms(4) Cons by (simp add: sequence_ok_def)
  then obtain records where
    "encode_video_sequence L junk (Some first) (0 + 1) rest = Inr records"
    "decoder_thread L (Some first) records = map Inr rest"
    using encode_decode_chain [OF assms(1,2) first, where frames = rest and junk = junk and k = "0 + 1"]
      assms(3) Cons by auto
  then show ?thesis using enc dec Cons by simp
qed

lemma sample_sequence_ok: "sequence_ok [near_frame, next_frame, next_frame]"
  by (simp add: sequence_ok_def delta_in_range_def delta_fits_def delta_stream_def
      near_frame_def next_frame_def eval_codec)

lemma sample_frames_ok: "\<forall>f \<in> set [near_frame, next_frame, next_frame]. frame_ok 1 1 3 f"
  by (simp add: frame_ok_def near_frame_def next_frame_def mk_frame_def)

lemma drift_free_chain_in_range_sample:
  "lib_ok stored_lib \<and> 0 < unat (1 * 1 * 3 :: u32)
   \<and> list_all (frame_ok 1 1 3) [near_frame, next_frame, next_frame]
   \<and> sequence_ok [near_frame, next_frame, next_frame]
   \<and> map_sum id (decoder_thread stored_lib None)
        (encode_video_sequence stored_lib junk_frame None 0 [near_frame, next_frame, next_frame])
      = Inr [Inr near_frame, Inr next_frame, Inr next_frame]"
proof -
  have p: "0 < unat (1 * 1 * 3 :: u32)" by simp
  obtain records where
    "encode_video_sequence stored_lib junk_frame None 0 [near_frame, next_frame, next_frame]
       = Inr records"
    "decoder_thread stored_lib None records = map Inr [near_frame, next_frame, next_frame]"
    using drift_free_chain_in_range [OF stored_lib_ok p sample_frames_ok sample_sequence_ok]
    by blast
  then show ?thesis
    using stored_lib_ok p sample_frames_ok sample_sequence_ok by (simp add: list_all_iff)
qed

text \<open>
  With predecessor \<open>[0, 0, 0]\<close> and current frame \<open>[200, 200, 200]\<close> (difference 200,
  outside [-128, 127]) the encoder emits a record of compression type 1 (DELTA), not 0,
  and the RAW decoder applied to that record does not return the current frame.
\<close>

lemma no_raw_fallback_small_frames:
  "map_sum id (compression_type \<circ> header)
     (encode_frame_to_commit stored_lib hi_frame (Some lo_frame) 1 junk_frame) = Inr 1
   \<and> map_sum id (decompress_frame_raw stored_lib)
     (encode_frame_to_commit stored_lib hi_frame (Some lo_frame) 1 junk_frame)
       = Inr (Inr (mk_frame 1 1 3 [0x01, 0x03, 0xC8]))
   \<and> \<not> delta_in_range hi_frame lo_frame"
  by (simp add: eval_codec lo_frame_def hi_frame_def delta_in_range_def)

text \<open>
  What the code computes for a frame with a predecessor of the same dimensions whose
  command stream fits the delta buffers: a record of compression type 1, which the delta
  decoder turns into the frame of the bytes \<open>clamped_byte\<close>.
\<close>

lemma delta_mode_always:
  assumes "lib_ok L" and "frame_ok w h c cur" and "frame_ok w h c prev"
    and "0 < unat (w * h * c)" and "delta_fits cur prev"
  shows "encode_frame_to_commit L cur (Some prev) frame_num junk
           = Inr (commit_record (delta_record L cur prev junk) frame_num)
         \<and> compression_type (header (commit_record (delta_record L cur prev junk) frame_num)) = 1
         \<and> decode_frame L (commit_record (delta_record L cur prev junk) frame_num) (Some prev)
             = Inr (clamped_frame cur prev)"
proof -
  let ?r = "commit_record (delta_record L cur prev junk) frame_num"
  have enc: "encode_frame_to_commit L cur (Some prev) frame_num junk = Inr ?r"
    using compress_frame_delta_ok [OF assms]
    by (simp add: encode_frame_to_commit_def commit_record_def)
  have ty: "compression_type (header ?r) = 1"
    by (simp add: commit_record_def delta_record_def)
  have "decompress_frame_delta L ?r prev = Inr (clamped_frame cur prev)"
    using assms(2)
    by (intro decompress_frame_delta_stream [OF assms])
      (simp_all add: commit_record_def delta_record_def frame_ok_def)
  then have "decode_frame L ?r (Some prev) = Inr (clamped_frame cur prev)"
    using ty by (simp add: decode_frame_def)
  then show ?thesis using enc ty by simp
qed

lemma delta_mode_always_sample:
  "frame_ok 1 1 3 hi_frame \<and> frame_ok 1 1 3 lo_frame \<and> 0 < unat (1 * 1 * 3 :: u32)
   \<and> delta_fits hi_frame lo_frame
   \<and> encode_frame_to_commit stored_lib hi_frame (Some lo_frame) 1 junk_frame
       = Inr (commit_record (delta_record stored_lib hi_frame lo_frame junk_frame) 1)
   \<and> compression_type
        (header (commit_record (delta_record stored_lib hi_frame lo_frame junk_frame) 1)) = 1
   \<and> decode_frame stored_lib
        (commit_record (delta_record stored_lib hi_frame lo_frame junk_frame) 1) (Some lo_frame)
       = Inr (clamped_frame hi_frame lo_frame)
   \<and> clamped_frame hi_frame lo_frame = lo_frame"
proof -
  have a: "frame_ok 1 1 3 hi_frame" and b: "frame_ok 1 1 3 lo_frame"
    by (simp_all add: frame_ok_def hi_frame_def lo_frame_def mk_frame_def)
  have p: "0 < unat (1 * 1 * 3 :: u32)" by simp
  have f: "delta_fits hi_frame lo_frame"
    by (simp add: delta_fits_def delta_stream_def hi_frame_def lo_frame_def eval_codec)
  have c: "clamped_frame hi_frame lo_frame = lo_frame"
    by (simp add: clamped_frame_def clamped_byte_def hi_frame_def lo_frame_def mk_frame_def)
  show ?thesis
    using a b p f c delta_mode_always [OF stored_lib_ok a b p f, of 1 junk_frame] by simp
qed

text \<open>
  C8 (the code breaks the claim): a DELTA record of dimensions 1x1x3 decoded against a
  predecessor of dimensions 2x1x3 is not rejected: \<open>decompress_frame_delta\<close> returns
  success and a 1x1x3 frame made of the first three bytes of the predecessor.
\<close>

theorem predecessor_dimensions_unchecked:
  "decompress_frame_delta stored_lib skip_record wide_frame = Inr (mk_frame 1 1 3 [1, 2, 3])
   \<and> (raw_width wide_frame, raw_height wide_frame, raw_channels wide_frame)
       \<noteq> (width (header skip_record), height (header skip_record), channels (header skip_record))"
  by (simp add: eval_codec skip_record_def wide_frame_def)

theorem predecessor_dimensions_unchecked_witness:
  "decompress_frame_delta stored_lib skip_record wide_frame = Inr (mk_frame 1 1 3 [1, 2, 3])"
  using predecessor_dimensions_unchecked by simp

section \<open>Identical frames\<close>

lemma identical_run_loop_same:
  "prev = cur \<Longrightarrow> run \<le> 255 \<Longrightarrow> i + run \<le> n \<Longrightarrow>
   identical_run_loop cur prev n i run = min 255 (n - i)"
proof (induction cur prev n i run rule: identical_run_loop.induct)
  case (1 cur prev n i run)
  show ?case
  proof (cases "i + run < n \<and> run < 255")
    case True
    then have c: "i + run < n \<and> cur ! (i + run) = prev ! (i + run) \<and> run < 255"
      using "1.prems"(1) by simp
    then have "identical_run_loop cur prev n i run = identical_run_loop cur prev n i (run + 1)"
      by (subst identical_run_loop.simps) simp
    then show ?thesis using "1.IH" [OF c "1.prems"(1)] True by simp
  next
    case False
    then have "identical_run_loop cur prev n i run = run"
      by (subst identical_run_loop.simps) auto
    then show ?thesis using False "1.prems" by auto
  qed
qed

lemma grey_stream: "delta_stream grey_frame grey_frame = [0x00, 192]"
proof -
  let ?xs = "replicate 192 (0x80 :: u8)"
  have r: "identical_run_loop ?xs ?xs 192 0 0 = 192"
    by (simp add: identical_run_loop_same)
  have "delta_loop ?xs ?xs 192 0 [] = [0x00, of_nat 192] @ delta_loop ?xs ?xs 192 (0 + 192) []"
    using delta_stream_identical [of 0 192 ?xs ?xs] r by simp
  then show ?thesis
    by (simp add: delta_stream_def grey_frame_def mk_frame_def delta_loop_done)
qed

lemma grey_frame_ok: "frame_ok 8 8 3 grey_frame"
  by (simp add: frame_ok_def grey_frame_def mk_frame_def)

lemma grey_in_range: "delta_in_range grey_frame grey_frame"
  by (simp add: delta_in_range_def list_all2_same)

lemma grey_fits: "delta_fits grey_frame grey_frame"
  by (simp add: delta_fits_def grey_stream) (simp add: grey_frame_def mk_frame_def)

text \<open>
  C9, as stated, fails: encoding two identical 8x8x3 frames of value 0x80, the payload of
  frame 1 entropy-decodes to the single command \<open>(0x00, 192)\<close>, not to three commands
  \<open>(0x00, 64)\<close>: a run is cut at 255 bytes, not at 64.
\<close>

theorem identical_frames_single_run:
  "map_sum id (map (lzfse_decode stored_lib \<circ> data))
     (encode_video_sequence stored_lib junk_frame None 0 [grey_frame, grey_frame])
   = Inr [pixels grey_frame, [0x00, 192]]
   \<and> [0x00, 192] \<noteq> [0x00, 64, 0x00, 64, 0x00, 64 :: u8]"
proof -
  have p: "0 < unat (8 * 8 * 3 :: u32)" by simp
  have "encode_frame_to_commit stored_lib grey_frame None 0 junk_frame
      = Inr (commit_record (raw_record stored_lib grey_frame junk_frame) 0)"
    using compress_frame_raw_ok [OF stored_lib_ok grey_frame_ok p]
    by (simp add: encode_frame_to_commit_def commit_record_def)
  moreover have "encode_frame_to_commit stored_lib grey_frame (Some grey_frame) 1 junk_frame
      = Inr (commit_record (delta_record stored_lib grey_frame grey_frame junk_frame) 1)"
    using compress_frame_delta_ok [OF stored_lib_ok grey_frame_ok grey_frame_ok p grey_fits]
    by (simp add: encode_frame_to_commit_def commit_record_def)
  ultimately show ?thesis
    by (simp add: commit_record_def raw_record_def delta_record_def grey_stream)
      (simp add: stored_lib_def)
qed

text \<open>
  C9 (amended): encoding two identical 8x8x3 frames of value 0x80 produces frame 0 in RAW
  mode and frame 1 in DELTA mode; the payload of frame 1 entropy-decodes to exactly the
  command stream \<open>(0x00, 192)\<close>, one identical run covering all 192 bytes; and decoding
  frame 1 against frame 0 reproduces frame 0 exactly.
\<close>

theorem identical_frames_scenario:
  assumes "lib_ok L"
  shows "encode_video_sequence L junk None 0 [grey_frame, grey_frame]
           = Inr [commit_record (raw_record L grey_frame junk) 0,
                  commit_record (delta_record L grey_frame grey_frame junk) 1]
         \<and> compression_type (header (commit_record (raw_record L grey_frame junk) 0)) = 0
         \<and> compression_type
              (header (commit_record (delta_record L grey_frame grey_frame junk) 1)) = 1
         \<and> lzfse_decode L (data (commit_record (delta_record L grey_frame grey_frame junk) 1))
              = [0x00, 192]
         \<and> decompress_frame_delta L
              (commit_record (delta_record L grey_frame grey_frame junk) 1) grey_frame
              = Inr grey_frame"
proof -
  have p: "0 < unat (8 * 8 * 3 :: u32)" by simp
  let ?r0 = "commit_record (raw_record L grey_frame junk) 0"
  let ?r1 = "commit_record (delta_record L grey_frame grey_frame junk) 1"
  have e0: "encode_frame_to_commit L grey_frame None 0 junk = Inr ?r0"
    using compress_frame_raw_ok [OF assms grey_frame_ok p]
    by (simp add: encode_frame_to_commit_def commit_record_def)
  have e1: "encode_frame_to_commit L grey_frame (Some grey_frame) 1 junk = Inr ?r1"
    using compress_frame_delta_ok [OF assms grey_frame_ok grey_frame_ok p grey_fits]
    by (simp add: encode_frame_to_commit_def commit_record_def)
  have t: "compression_type (header ?r0) = 0" "compression_type (header ?r1) = 1"
    by (simp_all add: commit_record_def raw_record_def delta_record_def)
  have d: "lzfse_decode L (data ?r1) = [0x00, 192]"
    using assms by (simp add: commit_record_def delta_record_def grey_stream lib_ok_def)
  have "decompress_frame_delta L ?r1 grey_frame = Inr (clamped_frame grey_frame grey_frame)"
    by (intro decompress_frame_delta_stream [OF assms grey_frame_ok grey_frame_ok p grey_fits])
      (simp_all add: commit_record_def delta_record_def grey_frame_def mk_frame_def)
  then have r: "decompress_frame_delta L ?r1 grey_frame = Inr grey_frame"
    using clamped_frame_in_range [OF grey_in_range] by simp
  show ?thesis using e0 e1 t d r by simp
qed

theorem identical_frames_scenario_witness:
  "encode_video_sequence stored_lib junk_frame None 0 [grey_frame, grey_frame]
           = Inr [commit_record (raw_record stored_lib grey_frame junk_frame) 0,
                  commit_record (delta_record stored_lib grey_frame grey_frame junk_frame) 1]
   \<and> compression_type
        (header (commit_record (delta_record stored_lib grey_frame grey_frame junk_frame) 1)) = 1
   \<and> lzfse_decode stored_lib
        (data (commit_record (delta_record stored_lib grey_frame grey_frame junk_frame) 1))
        = [0x00, 192]
   \<and> decompress_frame_delta stored_lib
        (commit_record (delta_record stored_lib grey_frame grey_frame junk_frame) 1) grey_frame
        = Inr grey_frame"
  using identical_frames_scenario [OF stored_lib_ok, of junk_frame] by simp

section \<open>Size of the command stream\<close>

lemma alt_identical_run_even:
  assumes "even i" and "i < n"
  shows "identical_run_loop (alt_pixels n) (replicate n 0) n i 0 = 0"
  using assms by (subst identical_run_loop.simps) (simp add: alt_pixels_def)

lemma alt_diff_run_even:
  assumes "even i" and "i < n"
  shows "diff_run_loop (alt_pixels n) (replicate n 0) n i 0 = 1"
proof -
  have "diff_run_loop (alt_pixels n) (replicate n 0) n i 0
      = diff_run_loop (alt_pixels n) (replicate n 0) n i (0 + 1)"
    using assms by (subst diff_run_loop.simps) (simp add: alt_pixels_def)
  also have "\<dots> = 0 + 1"
    using assms by (subst diff_run_loop.simps) (simp add: alt_pixels_def cong: conj_cong)
  finally show ?thesis by simp
qed

lemma alt_identical_run_odd:
  assumes "odd i" and "i < n"
  shows "identical_run_loop (alt_pixels n) (replicate n 0) n i 0 = 1"
proof -
  have "identical_run_loop (alt_pixels n) (replicate n 0) n i 0
      = identical_run_loop (alt_pixels n) (replicate n 0) n i (0 + 1)"
    using assms by (subst identical_run_loop.simps) (simp add: alt_pixels_def)
  also have "\<dots> = 0 + 1"
    using assms by (subst identical_run_loop.simps) (simp add: alt_pixels_def cong: conj_cong)
  finally show ?thesis by simp
qed

lemma alt_stream_length:
  "even n \<Longrightarrow> even i \<Longrightarrow> i \<le> n \<Longrightarrow>
   length (delta_loop (alt_pixels n) (replicate n 0) n i []) = 5 * ((n - i) div 2)"
proof (induction "n - i" arbitrary: i rule: less_induct)
  case less
  show ?case
  proof (cases "i < n")
    case False
    then show ?thesis using less.prems by (simp add: delta_loop_done)
  next
    case True
    let ?cur = "alt_pixels n" and ?prev = "replicate n (0 :: u8)"
    have i1: "Suc i < n" using True less.prems(1,2) by (metis Suc_lessI even_Suc)
    have odd: "odd (Suc i)" using less.prems(2) by simp
    have z: "identical_run_loop ?cur ?prev n i 0 = 0"
      by (rule alt_identical_run_even [OF less.prems(2) True])
    have d: "diff_run_loop ?cur ?prev n i 0 = 1"
      by (rule alt_diff_run_even [OF less.prems(2) True])
    have r: "identical_run_loop ?cur ?prev n (Suc i) 0 = 1"
      by (rule alt_identical_run_odd [OF odd i1])
    have a: "length (delta_loop ?cur ?prev n i [])
        = 3 + length (delta_loop ?cur ?prev n (Suc i) [])"
      using delta_stream_diff [OF True z] d by (simp add: length_emit_deltas)
    have b: "length (delta_loop ?cur ?prev n (Suc i) [])
        = 2 + length (delta_loop ?cur ?prev n (Suc (Suc i)) [])"
      using delta_stream_identical [OF i1] r by simp
    have "length (delta_loop ?cur ?prev n (Suc (Suc i)) []) = 5 * ((n - Suc (Suc i)) div 2)"
      using i1 less.prems by (intro less.hyps) simp_all
    moreover have "(n - i) div 2 = Suc ((n - Suc (Suc i)) div 2)"
      using i1 by (simp add: Suc_diff_Suc)
    ultimately show ?thesis using a b by simp
  qed
qed

lemma hd_alt_stream_length:
  "length (delta_loop (alt_pixels 6220800) (replicate 6220800 0) 6220800 0 []) = 15552000"
  using alt_stream_length [of 6220800 0] by simp

lemma hd_alt_in_range: "delta_in_range hd_alt_frame hd_zero_frame"
  by (simp add: delta_in_range_def hd_alt_frame_def hd_zero_frame_def mk_frame_def
      alt_pixels_def list_all2_conv_all_nth)

lemma hd_compress_overflow:
  "compress_frame_delta L hd_alt_frame hd_zero_frame output = Inl OUT_OF_BOUNDS"
  by (simp add: compress_frame_delta_def hd_alt_frame_def hd_zero_frame_def mk_frame_def
      Let_def hd_alt_stream_length)

lemma hd_frames_ok:
  "frame_ok FRAME_WIDTH FRAME_HEIGHT FRAME_CHANNELS hd_alt_frame"
  "frame_ok FRAME_WIDTH FRAME_HEIGHT FRAME_CHANNELS hd_zero_frame"
  by (simp_all add: frame_ok_def hd_alt_frame_def hd_zero_frame_def mk_frame_def alt_pixels_def
      FRAME_WIDTH_def FRAME_HEIGHT_def FRAME_CHANNELS_def)

lemma hd_delta_stream_length: "length (delta_stream hd_alt_frame hd_zero_frame) = 15552000"
  by (simp add: delta_stream_def hd_alt_frame_def hd_zero_frame_def mk_frame_def
      hd_alt_stream_length)

text \<open>
  C3 (the code breaks the claim): for the 1x1x3 frames \<open>[1, 0, 1]\<close> against
  \<open>[0, 0, 0]\<close>, N = 3, the transform emits the 8 bytes 01 01 01, 00 01, 01 01 01; the
  stores at indices 6 and 7 are outside the buffer of 2N = 6 bytes. The same happens at the
  configured dimensions: for a 1920x1080x3 frame that differs from its predecessor at
  exactly the even byte offsets, N = 6220800, the transform emits 15552000 bytes, more
  than 2N = 12441600.
\<close>

theorem delta_buffer_overflow:
  "delta_loop [1, 0, 1] [0, 0, 0] 3 0 [] = [0x01, 0x01, 0x01, 0x00, 0x01, 0x01, 0x01, 0x01]
   \<and> \<not> length (delta_loop [1, 0, 1] [0, 0, 0] 3 0 []) \<le> 2 * 3
   \<and> compress_frame_delta L alt_frame lo_frame output = Inl OUT_OF_BOUNDS
   \<and> frame_ok FRAME_WIDTH FRAME_HEIGHT FRAME_CHANNELS hd_alt_frame
   \<and> frame_ok FRAME_WIDTH FRAME_HEIGHT FRAME_CHANNELS hd_zero_frame
   \<and> length (delta_stream hd_alt_frame hd_zero_frame) = 15552000
   \<and> \<not> (15552000 :: nat) \<le> 2 * 6220800
   \<and> compress_frame_delta L hd_alt_frame hd_zero_frame output = Inl OUT_OF_BOUNDS"
proof -
  have "delta_loop [1, 0, 1] [0, 0, 0] 3 0 [] = [0x01, 0x01, 0x01, 0x00, 0x01, 0x01, 0x01, 0x01 :: u8]"
    by (simp add: eval_codec)
  moreover have "compress_frame_delta L alt_frame lo_frame output = Inl OUT_OF_BOUNDS"
    by (simp add: eval_codec alt_frame_def lo_frame_def)
  ultimately show ?thesis
    using hd_frames_ok hd_delta_stream_length hd_compress_overflow by simp
qed

theorem delta_buffer_overflow_witness:
  "compress_frame_delta stored_lib alt_frame lo_frame junk_frame = Inl OUT_OF_BOUNDS
   \<and> compress_frame_delta stored_lib hd_alt_frame hd_zero_frame junk_frame = Inl OUT_OF_BOUNDS"
  using delta_buffer_overflow [of stored_lib junk_frame] by simp

text \<open>
  C4 (the code breaks the claim): the frames \<open>[1, 0, 1]\<close> and \<open>[0, 0, 0]\<close> differ by
  1, 0, 1, inside [-128, 127]. The encoder stores past its 2N-byte buffer; and the record
  that carries the full 8-byte command stream is cut to 2N = 6 bytes by the decoder's
  buffer, so that the decoder returns \<open>[1, 0, 0]\<close>, not \<open>[1, 0, 1]\<close>. At the
  configured dimensions the frame that differs from its predecessor by 1 at the even byte
  offsets is in range as well, and the encoder stores past its buffer.
\<close>

theorem delta_identity_broken_by_buffer_bound:
  "delta_in_range alt_frame lo_frame
   \<and> compress_frame_delta stored_lib alt_frame lo_frame junk_frame = Inl OUT_OF_BOUNDS
   \<and> decompress_frame_delta stored_lib (delta_record stored_lib alt_frame lo_frame junk_frame)
        lo_frame = Inr (mk_frame 1 1 3 [1, 0, 0])
   \<and> delta_in_range hd_alt_frame hd_zero_frame
   \<and> compress_frame_delta stored_lib hd_alt_frame hd_zero_frame junk_frame = Inl OUT_OF_BOUNDS"
proof -
  have "delta_in_range alt_frame lo_frame
   \<and> compress_frame_delta stored_lib alt_frame lo_frame junk_frame = Inl OUT_OF_BOUNDS
   \<and> decompress_frame_delta stored_lib (delta_record stored_lib alt_frame lo_frame junk_frame)
        lo_frame = Inr (mk_frame 1 1 3 [1, 0, 0])"
    by (simp add: eval_codec alt_frame_def lo_frame_def delta_in_range_def delta_record_def
        delta_stream_def)
  then show ?thesis
    using hd_alt_in_range hd_compress_overflow by simp
qed

theorem delta_identity_broken_by_buffer_bound_witness:
  "decompress_frame_delta stored_lib (delta_record stored_lib alt_frame lo_frame junk_frame)
     lo_frame = Inr (mk_frame 1 1 3 [1, 0, 0])"
  using delta_identity_broken_by_buffer_bound by simp

section \<open>Reserved bytes and compression type\<close>

text \<open>
  C6 (the code breaks the claim): a buffer with correct magic, the configured dimensions,
  sufficient length and a correct CRC whose first reserved byte is 1, and one whose
  compression type is 2, are both accepted by \<open>deserialize_frame\<close> and returned
  unchanged; the repository's format document lists "Compression type must be valid
  (0-1 currently)" and "Reserved fields must be zero" among its validation rules.
\<close>

theorem reserved_and_type_not_rejected:
  "deserialize_frame (serialize_frame reserved_set_record) = Inr reserved_set_record
   \<and> deserialize_frame (serialize_frame type_two_record) = Inr type_two_record"
  by (simp add: serialize_frame_prefix deserialize_prefix reserved_set_record_def
      type_two_record_def FRAME_WIDTH_def FRAME_HEIGHT_def FRAME_CHANNELS_def)

theorem reserved_and_type_not_rejected_witness:
  "deserialize_frame (serialize_frame type_two_record) = Inr type_two_record"
  using reserved_and_type_not_rejected by simp

text \<open>
  The two records are not special: \<open>deserialize_frame\<close> reads neither the byte at
  offset 28 nor the bytes at offsets 29 to 31 before it returns the header that holds
  them.
\<close>

lemma deserialize_frame_ignores_reserved_and_type:
  assumes "32 \<le> length buffer"
    and "le32_read buffer 0 = FRAME_MAGIC"
    and "le32_read buffer 8 = FRAME_WIDTH"
    and "le32_read buffer 12 = FRAME_HEIGHT"
    and "le32_read buffer 16 = FRAME_CHANNELS"
    and "32 + unat (le32_read buffer 20) \<le> length buffer"
    and "calculate_checksum (take (unat (le32_read buffer 20)) (drop 32 buffer))
           = le32_read buffer 24"
  shows "deserialize_frame buffer =
           Inr \<lparr> header = read_header buffer 4,
                 data = take (unat (le32_read buffer 20)) (drop 32 buffer) \<rparr>
         \<and> compression_type (read_header buffer 4) = buffer ! 28
         \<and> reserved (read_header buffer 4) = (buffer ! 29, buffer ! 30, buffer ! 31)"
  using assms
  by (simp add: deserialize_frame_def Let_def read_header_def)

text \<open>
  The encoder does not set the reserved bytes: the record keeps those of the
  uninitialised struct.
\<close>

lemma encoder_leaves_reserved_unset:
  "map_sum id (reserved \<circ> header)
     (encode_frame_to_commit stored_lib lo_frame None 0 junk_frame) = Inr (0xAA, 0xBB, 0xCC)"
  by (simp add: eval_codec lo_frame_def)

section \<open>Differences outside the signed byte range\<close>

lemma diff_run_loop_all_diff:
  "\<forall>k<n. cur ! k \<noteq> prev ! k \<Longrightarrow> run \<le> 255 \<Longrightarrow> i + run \<le> n \<Longrightarrow>
   diff_run_loop cur prev n i run = min 255 (n - i)"
proof (induction cur prev n i run rule: diff_run_loop.induct)
  case (1 cur prev n i run)
  show ?case
  proof (cases "i + run < n \<and> run < 255")
    case True
    then have c: "i + run < n \<and> cur ! (i + run) \<noteq> prev ! (i + run) \<and> run < 255"
      using "1.prems"(1) by simp
    then have "diff_run_loop cur prev n i run = diff_run_loop cur prev n i (run + 1)"
      by (subst diff_run_loop.simps) simp
    then show ?thesis using "1.IH" [OF c "1.prems"(1)] True by simp
  next
    case False
    then have "diff_run_loop cur prev n i run = run"
      by (subst diff_run_loop.simps) auto
    then show ?thesis using False "1.prems" by auto
  qed
qed

lemma identical_run_loop_differs:
  "i < n \<Longrightarrow> cur ! i \<noteq> prev ! i \<Longrightarrow> identical_run_loop cur prev n i 0 = 0"
  by (subst identical_run_loop.simps) simp

lemma all_diff_stream_length:
  "\<forall>k<n. cur ! k \<noteq> prev ! k \<Longrightarrow> i \<le> n \<Longrightarrow>
   length (delta_loop cur prev n i []) = (n - i) + 2 * ((n - i + 254) div 255)"
proof (induction "n - i" arbitrary: i rule: less_induct)
  case less
  show ?case
  proof (cases "i < n")
    case False
    then show ?thesis using less.prems by (simp add: delta_loop_done)
  next
    case True
    let ?d = "diff_run_loop cur prev n i 0"
    have z: "identical_run_loop cur prev n i 0 = 0"
      using True less.prems(1) by (intro identical_run_loop_differs) simp_all
    have d: "?d = min 255 (n - i)"
      using less.prems by (intro diff_run_loop_all_diff) simp_all
    have len: "length (delta_loop cur prev n i []) = 2 + ?d + length (delta_loop cur prev n (i + ?d) [])"
      using delta_stream_diff [OF True z] by (simp add: length_emit_deltas)
    have ih: "length (delta_loop cur prev n (i + ?d) [])
        = (n - (i + ?d)) + 2 * ((n - (i + ?d) + 254) div 255)"
      using True d less.prems by (intro less.hyps) simp_all
    show ?thesis
    proof (cases "255 \<le> n - i")
      case long: True
      then have d255: "?d = 255" using d by simp
      define q where "q = (n - i - 255 + 254) div 255"
      have nm: "n - (i + 255) = n - i - 255" by simp
      have "n - i + 254 = (n - i - 255 + 254) + 255" using long by simp
      then have e1: "(n - i + 254) div 255 = Suc q"
        unfolding q_def by (simp only: div_add_self2)
      have ih': "length (delta_loop cur prev n (i + 255) []) = (n - i - 255) + 2 * q"
        using ih unfolding d255 nm q_def .
      have "2 + 255 + ((n - i - 255) + 2 * q) = (n - i) + 2 * Suc q"
        using long by simp
      then show ?thesis
        using len unfolding d255 ih' e1 by simp
    next
      case False
      then have dm: "?d = n - i" using d by simp
      have "(n - i + 254) div 255 = 1" using False True by simp
      then show ?thesis using len ih dm True by (simp add: delta_loop_done)
    qed
  qed
qed

lemma hd_black_stream_length: "length (delta_stream hd_zero_frame hd_white_frame) = 6269592"
proof -
  have "length (delta_loop (replicate 6220800 (0 :: u8)) (replicate 6220800 255) 6220800 0 [])
      = (6220800 - 0) + 2 * ((6220800 - 0 + 254) div 255)"
    by (rule all_diff_stream_length) simp_all
  then show ?thesis
    by (simp add: delta_stream_def hd_zero_frame_def hd_white_frame_def mk_frame_def)
qed

lemma hd_white_frame_ok: "frame_ok FRAME_WIDTH FRAME_HEIGHT FRAME_CHANNELS hd_white_frame"
  by (simp add: frame_ok_def hd_white_frame_def mk_frame_def
      FRAME_WIDTH_def FRAME_HEIGHT_def FRAME_CHANNELS_def)

lemma hd_pixel_count: "0 < unat (FRAME_WIDTH * FRAME_HEIGHT * FRAME_CHANNELS)"
  by (simp add: FRAME_WIDTH_def FRAME_HEIGHT_def FRAME_CHANNELS_def)

lemma hd_black_fits: "delta_fits hd_zero_frame hd_white_frame"
  by (simp add: delta_fits_def hd_black_stream_length)
    (simp add: hd_zero_frame_def mk_frame_def)

lemma hd_black_out_of_range: "\<not> delta_in_range hd_zero_frame hd_white_frame"
proof
  assume "delta_in_range hd_zero_frame hd_white_frame"
  then have "- 128 \<le> uint (pixels hd_zero_frame ! 0) - uint (pixels hd_white_frame ! 0)"
    unfolding delta_in_range_def
    by (rule list_all2_nthD [THEN conjunct1]) (simp add: hd_zero_frame_def mk_frame_def)
  then show False by (simp add: hd_zero_frame_def hd_white_frame_def mk_frame_def)
qed

lemma hd_black_clamped: "clamped_frame hd_zero_frame hd_white_frame = hd_white_frame"
  by (simp add: clamped_frame_def hd_zero_frame_def hd_white_frame_def mk_frame_def
      clamped_byte_def list_eq_iff_nth_eq)

lemma hd_white_neq_black: "hd_white_frame \<noteq> hd_zero_frame"
proof
  assume "hd_white_frame = hd_zero_frame"
  then have "pixels hd_white_frame ! 0 = pixels hd_zero_frame ! 0" by simp
  then show False by (simp add: hd_white_frame_def hd_zero_frame_def mk_frame_def)
qed

lemma hd_encode0:
  "encode_frame_to_commit stored_lib hd_white_frame None 0 junk_frame = Inr hd_record0"
  using compress_frame_raw_ok [OF stored_lib_ok hd_white_frame_ok hd_pixel_count]
  by (simp add: encode_frame_to_commit_def commit_record_def hd_record0_def)

lemma hd_encode1:
  "encode_frame_to_commit stored_lib hd_zero_frame (Some hd_white_frame) 1 junk_frame
     = Inr hd_record1"
  using compress_frame_delta_ok [OF stored_lib_ok hd_frames_ok(2) hd_white_frame_ok
      hd_pixel_count hd_black_fits]
  by (simp add: encode_frame_to_commit_def commit_record_def hd_record1_def)

lemma hd_decode0: "decode_frame stored_lib hd_record0 None = Inr hd_white_frame"
proof -
  have "decompress_frame_raw stored_lib hd_record0 = Inr hd_white_frame"
    using hd_white_frame_ok
    by (intro decompress_frame_raw_ok [OF stored_lib_ok hd_white_frame_ok hd_pixel_count])
      (simp_all add: hd_record0_def commit_record_def raw_record_def frame_ok_def)
  then show ?thesis
    by (simp add: decode_frame_def hd_record0_def commit_record_def raw_record_def)
qed

lemma hd_decode1: "decode_frame stored_lib hd_record1 (Some hd_white_frame) = Inr hd_white_frame"
proof -
  have "decompress_frame_delta stored_lib hd_record1 hd_white_frame
      = Inr (clamped_frame hd_zero_frame hd_white_frame)"
    using hd_frames_ok(2)
    by (intro decompress_frame_delta_stream [OF stored_lib_ok hd_frames_ok(2) hd_white_frame_ok
          hd_pixel_count hd_black_fits])
      (simp_all add: hd_record1_def commit_record_def delta_record_def frame_ok_def)
  then show ?thesis
    by (simp add: decode_frame_def hd_record1_def commit_record_def delta_record_def
        hd_black_clamped)
qed

lemma deserialize_serialize_record:
  assumes "width (header r) = FRAME_WIDTH" and "height (header r) = FRAME_HEIGHT"
    and "channels (header r) = FRAME_CHANNELS"
    and "checksum (header r) = calculate_checksum (data r)"
    and "length (data r) = unat (compressed_size (header r))"
  shows "deserialize_frame (serialize_frame r) = Inr r"
  using assms by (simp add: serialize_frame_prefix deserialize_prefix)

lemma hd_blob0: "deserialize_frame (serialize_frame hd_record0) = Inr hd_record0"
  using hd_white_frame_ok
  by (intro deserialize_serialize_record)
    (simp_all add: hd_record0_def commit_record_def raw_record_def frame_ok_def
      hd_white_frame_def mk_frame_def stored_lib_def unat_of_nat)

lemma hd_blob1: "deserialize_frame (serialize_frame hd_record1) = Inr hd_record1"
  using hd_frames_ok(2) hd_black_stream_length
  by (intro deserialize_serialize_record)
    (simp_all add: hd_record1_def commit_record_def delta_record_def frame_ok_def
      stored_lib_def unat_of_nat)

lemma hd_black_stream_head: "delta_stream hd_zero_frame hd_white_frame ! 0 = 0x01"
proof -
  let ?cur = "replicate 6220800 (0 :: u8)" and ?prev = "replicate 6220800 (255 :: u8)"
  have z: "identical_run_loop ?cur ?prev 6220800 0 0 = 0"
    by (rule identical_run_loop_differs) simp_all
  have "delta_loop ?cur ?prev 6220800 0 [] ! 0 = 0x01"
    by (subst delta_stream_diff [OF _ z]) simp_all
  then show ?thesis
    by (simp add: delta_stream_def hd_zero_frame_def hd_white_frame_def mk_frame_def)
qed

lemma hd_raw_decode_of_delta:
  "decompress_frame_raw stored_lib hd_record1 \<noteq> Inr hd_zero_frame"
proof
  assume a: "decompress_frame_raw stored_lib hd_record1 = Inr hd_zero_frame"
  let ?st = "delta_stream hd_zero_frame hd_white_frame"
  have len: "length ?st = 6269592" by (rule hd_black_stream_length)
  then have ne: "?st \<noteq> []" by auto
  have d: "data hd_record1 = 0x53 # ?st"
    by (simp add: hd_record1_def commit_record_def delta_record_def stored_lib_def)
  have w: "width (header hd_record1) = 1920" "height (header hd_record1) = 1080"
    "channels (header hd_record1) = 3"
    by (simp_all add: hd_record1_def commit_record_def delta_record_def hd_zero_frame_def
        mk_frame_def)
  have "decompress_frame_raw stored_lib hd_record1
      = Inr \<lparr> pixels = take 6220800 ?st, raw_width = 1920, raw_height = 1080,
              raw_channels = 3 \<rparr>"
    using ne
    by (simp add: decompress_frame_raw_def Let_def compression_decode_buffer_def d w len
        stored_lib_def)
  then have "take 6220800 ?st = replicate 6220800 0"
    using a by (simp add: hd_zero_frame_def mk_frame_def)
  then have "take 6220800 ?st ! 0 = replicate 6220800 (0 :: u8) ! 0" by simp
  then show False using hd_black_stream_head by simp
qed

text \<open>
  C1 (the code breaks the claim): the encoder stores a byte difference as
  \<open>delta & 0xFF\<close>, and the decoder reads that byte as signed and clamps the sum, so a
  difference outside [-128, 127] is not reconstructed. For the 1x1x3 frames \<open>[0, 0, 0]\<close>
  and \<open>[200, 200, 200]\<close> decoding yields \<open>[0, 0, 0]\<close> twice. For the all-white
  followed by the all-black frame of the configured dimensions the encoder produces two
  records, both accepted by \<open>deserialize_frame\<close> after serialization, and decoding them
  in order yields the white frame twice.
\<close>

theorem drift_at_large_difference:
  "map_sum id (decoder_thread stored_lib None)
     (encode_video_sequence stored_lib junk_frame None 0 [lo_frame, hi_frame])
   = Inr [Inr lo_frame, Inr lo_frame]
   \<and> lo_frame \<noteq> hi_frame
   \<and> frame_ok FRAME_WIDTH FRAME_HEIGHT FRAME_CHANNELS hd_white_frame
   \<and> frame_ok FRAME_WIDTH FRAME_HEIGHT FRAME_CHANNELS hd_zero_frame
   \<and> encode_video_sequence stored_lib junk_frame None 0 [hd_white_frame, hd_zero_frame]
       = Inr [hd_record0, hd_record1]
   \<and> deserialize_frame (serialize_frame hd_record0) = Inr hd_record0
   \<and> deserialize_frame (serialize_frame hd_record1) = Inr hd_record1
   \<and> decoder_thread stored_lib None [hd_record0, hd_record1]
       = [Inr hd_white_frame, Inr hd_white_frame]
   \<and> hd_white_frame \<noteq> hd_zero_frame"
  using drift_small_frames hd_white_frame_ok hd_frames_ok(2) hd_encode0 hd_encode1
    hd_blob0 hd_blob1 hd_decode0 hd_decode1 hd_white_neq_black
  by simp

theorem drift_at_large_difference_witness:
  "decoder_thread stored_lib None [hd_record0, hd_record1]
     = [Inr hd_white_frame, Inr hd_white_frame]"
  using drift_at_large_difference by simp

text \<open>
  C2 (the code breaks the claim): \<open>encode_frame_to_commit\<close> never looks at the byte
  differences. With predecessor \<open>[0, 0, 0]\<close> and current frame \<open>[200, 200, 200]\<close>
  (difference 200), and with the all-white predecessor and the all-black current frame of
  the configured dimensions (difference -255), it emits a record of compression type 1
  (DELTA), not 0, and the RAW decoder applied to that record does not return the current
  frame.
\<close>

theorem no_raw_fallback:
  "\<not> delta_in_range hi_frame lo_frame
   \<and> map_sum id (compression_type \<circ> header)
       (encode_frame_to_commit stored_lib hi_frame (Some lo_frame) 1 junk_frame) = Inr 1
   \<and> map_sum id (decompress_frame_raw stored_lib)
       (encode_frame_to_commit stored_lib hi_frame (Some lo_frame) 1 junk_frame)
         = Inr (Inr (mk_frame 1 1 3 [0x01, 0x03, 0xC8]))
   \<and> \<not> delta_in_range hd_zero_frame hd_white_frame
   \<and> encode_frame_to_commit stored_lib hd_zero_frame (Some hd_white_frame) 1 junk_frame
       = Inr hd_record1
   \<and> compression_type (header hd_record1) = 1
   \<and> decompress_frame_raw stored_lib hd_record1 \<noteq> Inr hd_zero_frame"
proof -
  have "compression_type (header hd_record1) = 1"
    by (simp add: hd_record1_def commit_record_def delta_record_def)
  then show ?thesis
    using no_raw_fallback_small_frames hd_black_out_of_range hd_encode1 hd_raw_decode_of_delta
    by simp
qed

theorem no_raw_fallback_witness:
  "encode_frame_to_commit stored_lib hd_zero_frame (Some hd_white_frame) 1 junk_frame
     = Inr hd_record1
   \<and> compression_type (header hd_record1) = 1"
  using no_raw_fallback by simp

end
